theory Spec2Isabelle
  imports Main
begin

section \<open>Python values the module relies on\<close>

text \<open>
  The embedding follows \<^verbatim>\<open>picraft/vector.py\<close> as run by Python 3 (the branches
  guarded by \<^verbatim>\<open>sys.version_info.major < 3\<close> and the \<^verbatim>\<open>xrange\<close> fallbacks are
  the Python 2 paths and are not taken). Vector components and scalars are Python
  integers, modelled as \<^typ>\<open>int\<close>. Every exception the code can raise is a value.
\<close>

datatype error =
  ValueError | IndexError | TypeError | AssertionError | ZeroDivisionError | AttributeError
  | OverflowError

definition and_then :: "error + 'a \<Rightarrow> ('a \<Rightarrow> error + 'b) \<Rightarrow> error + 'b" where
  "and_then m f = (case m of Inl e \<Rightarrow> Inl e | Inr a \<Rightarrow> f a)"

text \<open>A comprehension whose body may raise: evaluated left to right, the first exception
  aborts it.\<close>

fun collect :: "(error + 'a) list \<Rightarrow> error + 'a list" where
  "collect [] = Inr []"
| "collect (m # ms) =
     (case m of Inl e \<Rightarrow> Inl e
      | Inr a \<Rightarrow> (case collect ms of Inl e \<Rightarrow> Inl e | Inr as \<Rightarrow> Inr (a # as)))"

subsection \<open>The builtin \<^verbatim>\<open>range\<close>\<close>

datatype pyrange = PyRange (r_start: int) (r_stop: int) (r_step: int)

definition py_range :: "int \<Rightarrow> int \<Rightarrow> int \<Rightarrow> error + pyrange" where
  "py_range a b s = (if s = 0 then Inl ValueError else Inr (PyRange a b s))"

fun range_len :: "pyrange \<Rightarrow> int" where
  "range_len (PyRange a b s) =
     (if 0 < s then (if a < b then (b - a - 1) div s + 1 else 0)
      else (if b < a then (a - b - 1) div (- s) + 1 else 0))"

text \<open>The builtin \<^verbatim>\<open>len\<close>. The length of an object has to fit the C type
  \<^verbatim>\<open>Py_ssize_t\<close>: \<^verbatim>\<open>len\<close> raises \<^verbatim>\<open>OverflowError\<close> for a length above
  \<^verbatim>\<open>sys.maxsize\<close>, which is \<^verbatim>\<open>2**63 - 1\<close> on the 64-bit builds of CPython (the value
  taken here), and \<^verbatim>\<open>ValueError\<close> for a negative result of \<^verbatim>\<open>__len__\<close>. The length of a
  range itself (\<open>range_len\<close>) is an unbounded integer, and indexing, membership and
  \<^verbatim>\<open>index\<close> of a range work on unbounded integers; only \<^verbatim>\<open>len(r)\<close> (\<open>len_range\<close>) is
  limited.\<close>

definition maxsize :: int where
  "maxsize = 2 ^ 63 - 1"

definition py_len :: "int \<Rightarrow> error + int" where
  "py_len n =
     (if n < 0 then Inl ValueError else if maxsize < n then Inl OverflowError else Inr n)"

definition len_range :: "pyrange \<Rightarrow> error + int" where
  "len_range r = py_len (range_len r)"

fun range_getitem :: "pyrange \<Rightarrow> int \<Rightarrow> error + int" where
  "range_getitem (PyRange a b s) i =
     (let n = range_len (PyRange a b s); j = (if i < 0 then i + n else i)
      in if j < 0 \<or> n \<le> j then Inl IndexError else Inr (a + j * s))"

fun range_contains :: "pyrange \<Rightarrow> int \<Rightarrow> bool" where
  "range_contains (PyRange a b s) v =
     ((if 0 < s then a \<le> v \<and> v < b else v \<le> a \<and> b < v) \<and> (v - a) mod s = 0)"

fun range_index :: "pyrange \<Rightarrow> int \<Rightarrow> error + int" where
  "range_index (PyRange a b s) v =
     (if range_contains (PyRange a b s) v then Inr ((v - a) div s) else Inl ValueError)"

fun range_iter :: "pyrange \<Rightarrow> int list" where
  "range_iter (PyRange a b s) = map (\<lambda>i. a + i * s) [0..range_len (PyRange a b s) - 1]"

section \<open>Vector\<close>

text \<open>The namedtuple \<^verbatim>\<open>Vector(x, y, z)\<close>; the fields are named \<open>vx\<close>, \<open>vy\<close>, \<open>vz\<close>.\<close>

datatype Vector = Vector (vx: int) (vy: int) (vz: int)

text \<open>An operand of an arithmetic operator: a scalar or a vector.\<close>

datatype pyval = PInt int | PVec Vector

text \<open>\<^verbatim>\<open>Vector.__add__\<close>, \<^verbatim>\<open>__sub__\<close>, \<^verbatim>\<open>__mul__\<close>: the \<^verbatim>\<open>try\<close> branch pairs the
  components of another vector; a scalar has no attribute \<^verbatim>\<open>x\<close>, so the
  \<^verbatim>\<open>except AttributeError\<close> branch broadcasts it.\<close>

fun Vector_add :: "Vector \<Rightarrow> pyval \<Rightarrow> Vector" where
  "Vector_add self (PVec other) =
     Vector (vx self + vx other) (vy self + vy other) (vz self + vz other)"
| "Vector_add self (PInt other) =
     Vector (vx self + other) (vy self + other) (vz self + other)"

fun Vector_sub :: "Vector \<Rightarrow> pyval \<Rightarrow> Vector" where
  "Vector_sub self (PVec other) =
     Vector (vx self - vx other) (vy self - vy other) (vz self - vz other)"
| "Vector_sub self (PInt other) =
     Vector (vx self - other) (vy self - other) (vz self - other)"

fun Vector_mul :: "Vector \<Rightarrow> pyval \<Rightarrow> Vector" where
  "Vector_mul self (PVec other) =
     Vector (vx self * vx other) (vy self * vy other) (vz self * vz other)"
| "Vector_mul self (PInt other) =
     Vector (vx self * other) (vy self * other) (vz self * other)"

datatype binop = Add | Sub | Mul

text \<open>The methods the class defines for an operator: the forward one, and the reflected
  one where the class has it (\<^verbatim>\<open>__radd__ = __add__\<close>, \<^verbatim>\<open>__rmul__ = __mul__\<close>; the class
  assigns no \<^verbatim>\<open>__rsub__\<close> and its base \<^verbatim>\<open>tuple\<close> has none).\<close>

fun Vector_forward :: "binop \<Rightarrow> Vector \<Rightarrow> pyval \<Rightarrow> Vector" where
  "Vector_forward Add = Vector_add"
| "Vector_forward Sub = Vector_sub"
| "Vector_forward Mul = Vector_mul"

fun Vector_reflected :: "binop \<Rightarrow> (Vector \<Rightarrow> pyval \<Rightarrow> Vector) option" where
  "Vector_reflected Add = Some Vector_add"
| "Vector_reflected Sub = None"
| "Vector_reflected Mul = Some Vector_mul"

text \<open>The integer's own method: \<^verbatim>\<open>NotImplemented\<close> (here \<open>None\<close>) for an operand that
  is not a number.\<close>

fun int_forward :: "binop \<Rightarrow> int \<Rightarrow> pyval \<Rightarrow> pyval option" where
  "int_forward Add a (PInt b) = Some (PInt (a + b))"
| "int_forward Sub a (PInt b) = Some (PInt (a - b))"
| "int_forward Mul a (PInt b) = Some (PInt (a * b))"
| "int_forward _ a (PVec v) = None"

text \<open>Python's dispatch of \<^verbatim>\<open>a op b\<close>: the left operand's method, then, when that is
  not implemented, the right operand's reflected method, else \<^verbatim>\<open>TypeError\<close>.\<close>

fun py_binop :: "binop \<Rightarrow> pyval \<Rightarrow> pyval \<Rightarrow> error + pyval" where
  "py_binop bop (PVec v) b = Inr (PVec (Vector_forward bop v b))"
| "py_binop bop (PInt a) b =
     (case int_forward bop a b of
        Some r \<Rightarrow> Inr r
      | None \<Rightarrow>
          (case b of
             PVec v \<Rightarrow>
               (case Vector_reflected bop of
                  Some m \<Rightarrow> Inr (PVec (m v (PInt a)))
                | None \<Rightarrow> Inl TypeError)
           | PInt _ \<Rightarrow> Inl TypeError))"

section \<open>Helpers of the range type\<close>

text \<open>Floor division and modulo raise on a zero divisor.\<close>

definition py_floordiv :: "int \<Rightarrow> int \<Rightarrow> error + int" where
  "py_floordiv a b = (if b = 0 then Inl ZeroDivisionError else Inr (a div b))"

definition py_mod :: "int \<Rightarrow> int \<Rightarrow> error + int" where
  "py_mod a b = (if b = 0 then Inl ZeroDivisionError else Inr (a mod b))"

text \<open>Indexing a list or tuple, negative indices counting from the end.\<close>

definition list_getitem :: "'a list \<Rightarrow> int \<Rightarrow> error + 'a" where
  "list_getitem xs i =
     (let n = int (length xs); j = (if i < 0 then i + n else i)
      in if j < 0 \<or> n \<le> j then Inl IndexError else Inr (xs ! nat j))"

text \<open>\<^verbatim>\<open>product\<close>: \<^verbatim>\<open>reduce(op.mul, l)\<close> has no initial value, so an empty argument
  raises.\<close>

fun product :: "int list \<Rightarrow> error + int" where
  "product [] = Inl TypeError"
| "product (x # xs) = Inr (foldl (*) x xs)"

text \<open>The bounding argument of \<^verbatim>\<open>rmod\<close>: a range, or another ascending sequence
  without a \<^verbatim>\<open>stop\<close> attribute (a list).\<close>

datatype num_range = NumRange pyrange | NumList "int list"

fun num_len :: "num_range \<Rightarrow> int" where
  "num_len (NumRange r) = range_len r"
| "num_len (NumList xs) = int (length xs)"

fun num_getitem :: "num_range \<Rightarrow> int \<Rightarrow> error + int" where
  "num_getitem (NumRange r) i = range_getitem r i"
| "num_getitem (NumList xs) i = list_getitem xs i"

fun num_stop :: "num_range \<Rightarrow> error + int" where
  "num_stop (NumRange r) = Inr (r_stop r)"
| "num_stop (NumList xs) = Inl AttributeError"

text \<open>\<^verbatim>\<open>rmod\<close> and \<^verbatim>\<open>rdiv\<close>. The collection returned (\<^verbatim>\<open>set()\<close> or a range) is
  given by its elements in iteration order.\<close>

definition rmod :: "int \<Rightarrow> int \<Rightarrow> num_range \<Rightarrow> error + int list" where
  "rmod denom result nr =
     (if denom \<le> 0 then Inl ValueError
      else if \<not> (0 \<le> result \<and> result < denom) then Inr []
      else
        and_then (py_len (num_len nr)) (\<lambda>n.
        if n = 0 then Inr []
        else
          and_then (num_getitem nr (- 1)) (\<lambda>last.
          and_then (num_getitem nr 0) (\<lambda>first.
          if \<not> (first \<le> last) then Inl AssertionError
          else
            let start = first + (result - first mod denom) mod denom in
            and_then (case num_stop nr of Inl AttributeError \<Rightarrow> Inr (last + 1) | other \<Rightarrow> other)
              (\<lambda>stop.
            and_then (py_range start stop denom) (\<lambda>r. Inr (range_iter r)))))))"

definition rdiv :: "int \<Rightarrow> int \<Rightarrow> error + int list" where
  "rdiv denom result =
     (if denom \<le> 0 then Inl ValueError
      else and_then (py_range (result * denom) (result * denom + denom) 1)
             (\<lambda>r. Inr (range_iter r)))"

section \<open>vector\_range\<close>

record vector_range =
  vr_start :: Vector
  vr_stop :: Vector
  vr_step :: Vector
  vr_order :: string
  vr_ranges :: "pyrange list"
  vr_indexes :: "int list"
  vr_slice :: "pyrange option"

text \<open>\<^verbatim>\<open>getattr(v, axis)\<close> and \<^verbatim>\<open>order.index(axis)\<close>.\<close>

definition getattr :: "Vector \<Rightarrow> char \<Rightarrow> error + int" where
  "getattr v c =
     (if c = CHR ''x'' then Inr (vx v)
      else if c = CHR ''y'' then Inr (vy v)
      else if c = CHR ''z'' then Inr (vz v)
      else Inl AttributeError)"

fun str_index :: "string \<Rightarrow> char \<Rightarrow> error + int" where
  "str_index [] c = Inl ValueError"
| "str_index (d # ds) c =
     (if d = c then Inr 0
      else (case str_index ds c of Inl e \<Rightarrow> Inl e | Inr n \<Rightarrow> Inr (n + 1)))"

text \<open>\<^verbatim>\<open>__len__\<close> (\<open>vr_dunder_len\<close>): the product of \<^verbatim>\<open>len(r)\<close> over the axis ranges, or
  the \<^verbatim>\<open>len\<close> of the window. The class always takes its length as \<^verbatim>\<open>len(self)\<close>
  (\<open>vr_len\<close>), where the builtin checks the result of \<^verbatim>\<open>__len__\<close> once more.\<close>

definition vr_dunder_len :: "vector_range \<Rightarrow> error + int" where
  "vr_dunder_len self =
     (case vr_slice self of
        None \<Rightarrow> and_then (collect (map len_range (vr_ranges self))) product
      | Some w \<Rightarrow> len_range w)"

definition vr_len :: "vector_range \<Rightarrow> error + int" where
  "vr_len self = and_then (vr_dunder_len self) py_len"

text \<open>\<^verbatim>\<open>__init__\<close>. An absent \<^verbatim>\<open>stop\<close> makes the first argument the stop. The private
  argument \<^verbatim>\<open>_slice\<close> is the window; a non-empty window is asserted to be no longer than
  the unwindowed range.\<close>

definition vector_range_init ::
  "Vector \<Rightarrow> Vector option \<Rightarrow> Vector \<Rightarrow> string \<Rightarrow> pyrange option \<Rightarrow> error + vector_range"
where
  "vector_range_init start stop step order slice =
     (let start' = (case stop of None \<Rightarrow> Vector 0 0 0 | Some s \<Rightarrow> start);
          stop' = (case stop of None \<Rightarrow> start | Some s \<Rightarrow> s)
      in
      if order \<notin> set [''xyz'', ''xzy'', ''yxz'', ''yzx'', ''zxy'', ''zyx''] then Inl ValueError
      else
        and_then (collect (map (\<lambda>axis.
            and_then (getattr start' axis) (\<lambda>a.
            and_then (getattr stop' axis) (\<lambda>b.
            and_then (getattr step axis) (\<lambda>c. py_range a b c)))) order)) (\<lambda>ranges.
        and_then (collect (map (str_index order) ''xyz'')) (\<lambda>indexes.
        let self = \<lparr> vr_start = start', vr_stop = stop', vr_step = step, vr_order = order,
                     vr_ranges = ranges, vr_indexes = indexes, vr_slice = None \<rparr>
        in
        and_then
          (case slice of
             None \<Rightarrow> Inr ()
           | Some w \<Rightarrow>
               if 0 < range_len w
               then and_then (len_range w) (\<lambda>m.
                    and_then (vr_len self) (\<lambda>n.
                    if m \<le> n then Inr () else Inl AssertionError))
               else Inr ())
          (\<lambda>_. Inr (self \<lparr> vr_slice := slice \<rparr>)))))"

text \<open>\<^verbatim>\<open>Vector(*args)\<close>: missing components default to 0, more than three arguments
  are a type error.\<close>

fun Vector_new :: "int list \<Rightarrow> error + Vector" where
  "Vector_new [] = Inr (Vector 0 0 0)"
| "Vector_new [a] = Inr (Vector a 0 0)"
| "Vector_new [a, b] = Inr (Vector a b 0)"
| "Vector_new [a, b, c] = Inr (Vector a b c)"
| "Vector_new _ = Inl TypeError"

text \<open>\<^verbatim>\<open>__getitem__\<close> with an integer index.\<close>

definition vr_getitem :: "vector_range \<Rightarrow> int \<Rightarrow> error + Vector" where
  "vr_getitem self index =
     and_then (vr_len self) (\<lambda>n.
     let index = (if index < 0 then index + n else index) in
     if \<not> (0 \<le> index \<and> index < n) then Inl IndexError
     else
       and_then (case vr_slice self of None \<Rightarrow> Inr index | Some w \<Rightarrow> range_getitem w index)
         (\<lambda>index.
       and_then (list_getitem (vr_ranges self) 0) (\<lambda>r0.
       and_then (len_range r0) (\<lambda>l0.
       and_then (py_mod index l0) (\<lambda>p0.
       and_then (range_getitem r0 p0) (\<lambda>v0.
       and_then (list_getitem (vr_ranges self) 1) (\<lambda>r1.
       and_then (py_floordiv index l0) (\<lambda>q.
       and_then (len_range r1) (\<lambda>l1.
       and_then (py_mod q l1) (\<lambda>p1.
       and_then (range_getitem r1 p1) (\<lambda>v1.
       and_then (list_getitem (vr_ranges self) 2) (\<lambda>r2.
       and_then (py_floordiv index (l0 * l1)) (\<lambda>p2.
       and_then (range_getitem r2 p2) (\<lambda>v2.
       and_then (collect (map (list_getitem [v0, v1, v2]) (vr_indexes self)))
         Vector_new))))))))))))))"

text \<open>\<^verbatim>\<open>__getitem__\<close> with a slice.\<close>

datatype pyslice = Slice (sl_start: "int option") (sl_stop: "int option") (sl_step: "int option")

definition vr_getslice :: "vector_range \<Rightarrow> pyslice \<Rightarrow> error + vector_range" where
  "vr_getslice self index =
     (let step = (case sl_step index of None \<Rightarrow> 1 | Some s \<Rightarrow> s) in
      and_then (vr_len self) (\<lambda>n.
      let start =
            (if step < 0
             then min n (case sl_start index of
                           None \<Rightarrow> n - 1
                         | Some s \<Rightarrow> if s < 0 then max 0 (s + n) else s)
             else min n (max 0 (case sl_start index of
                                  None \<Rightarrow> 0
                                | Some s \<Rightarrow> if s < 0 then s + n else s)));
          stop =
            (if step < 0
             then min n (case sl_stop index of
                           None \<Rightarrow> - 1
                         | Some s \<Rightarrow> if s < 0 then max 0 (s + n) else s)
             else min n (max 0 (case sl_stop index of
                                  None \<Rightarrow> n
                                | Some s \<Rightarrow> if s < 0 then s + n else s)))
      in
      and_then (py_range start stop step) (\<lambda>w.
      vector_range_init (vr_start self) (Some (vr_stop self)) (vr_step self) (vr_order self)
        (Some w))))"

text \<open>\<^verbatim>\<open>__iter__\<close> is a generator reading \<^verbatim>\<open>self[i]\<close> for the logical indices in order.
  \<open>vr_iter\<close> is what it produces: the vectors read, up to and including the first read that
  raises, where the generator ends (\<open>until_raise\<close>); when \<^verbatim>\<open>len(self)\<close> raises, that
  exception alone. \<^verbatim>\<open>list(r)\<close> (\<open>vr_list\<close>) raises when the generator does.\<close>

fun until_raise :: "(error + 'a) list \<Rightarrow> (error + 'a) list" where
  "until_raise [] = []"
| "until_raise (m # ms) = (case m of Inl e \<Rightarrow> [Inl e] | Inr a \<Rightarrow> Inr a # until_raise ms)"

definition vr_iter :: "vector_range \<Rightarrow> (error + Vector) list" where
  "vr_iter self =
     (case vr_len self of
        Inl e \<Rightarrow> [Inl e]
      | Inr n \<Rightarrow> until_raise (map (vr_getitem self) [0..n - 1]))"

definition vr_list :: "vector_range \<Rightarrow> error + Vector list" where
  "vr_list self = collect (vr_iter self)"

text \<open>\<^verbatim>\<open>index\<close>. \<open>index_sets\<close> is the first part of the method: the unpacking of the
  value, the product \<open>l\<close> of the axis lengths, and the three candidate sets \<^verbatim>\<open>i_indexes\<close>,
  \<^verbatim>\<open>j_indexes\<close> and \<^verbatim>\<open>k_indexes\<close>, each given by the integers it is built from, in the
  order they are produced. \<open>vr_index\<close> then intersects them: the intersection is the list of
  the distinct first candidates that are in both other sets. The \<^verbatim>\<open>try\<close> block re-raises a
  \<^verbatim>\<open>ValueError\<close> as a \<^verbatim>\<open>ValueError\<close> and lets every other exception through, so each
  exception keeps its kind.\<close>

definition index_sets ::
  "vector_range \<Rightarrow> Vector \<Rightarrow> error + int list \<times> int list \<times> int list"
where
  "index_sets self val =
     and_then (collect (map (getattr val) (vr_order self))) (\<lambda>ijk.
     case ijk of
       [i, j, k] \<Rightarrow>
         and_then (and_then (collect (map len_range (vr_ranges self))) product) (\<lambda>l.
         and_then (list_getitem (vr_ranges self) 0) (\<lambda>r0.
         and_then (len_range r0) (\<lambda>l0.
         and_then (range_index r0 i) (\<lambda>i0.
         and_then (rmod l0 i0 (NumRange (PyRange 0 l 1))) (\<lambda>i_indexes.
         and_then (list_getitem (vr_ranges self) 1) (\<lambda>r1.
         and_then (len_range r1) (\<lambda>l1.
         and_then (range_index r1 j) (\<lambda>j0.
         and_then (py_floordiv l l0) (\<lambda>q.
         and_then (rmod l1 j0 (NumRange (PyRange 0 q 1))) (\<lambda>as.
         and_then (collect (map (rdiv l0) as)) (\<lambda>bs.
         and_then (list_getitem (vr_ranges self) 2) (\<lambda>r2.
         and_then (range_index r2 k) (\<lambda>k0.
         and_then (rdiv (l0 * l1) k0) (\<lambda>k_indexes.
         Inr (i_indexes, concat bs, k_indexes)))))))))))))))
     | _ \<Rightarrow> Inl ValueError)"

definition vr_index :: "vector_range \<Rightarrow> Vector \<Rightarrow> error + int" where
  "vr_index self val =
     and_then (index_sets self val) (\<lambda>(i_indexes, j_indexes, k_indexes).
     case filter (\<lambda>n. n \<in> set j_indexes \<and> n \<in> set k_indexes) (remdups i_indexes) of
       [result] \<Rightarrow>
         (case vr_slice self of
            None \<Rightarrow> Inr result
          | Some w \<Rightarrow> range_index w result)
     | _ \<Rightarrow> Inl AssertionError)"

text \<open>\<^verbatim>\<open>__contains__\<close> and \<^verbatim>\<open>count\<close>.\<close>

definition vr_contains :: "vector_range \<Rightarrow> Vector \<Rightarrow> error + bool" where
  "vr_contains self val =
     (case vr_index self val of
        Inl ValueError \<Rightarrow> Inr False
      | Inl e \<Rightarrow> Inl e
      | Inr _ \<Rightarrow> Inr True)"


text \<open>\<^verbatim>\<open>__lt__\<close>. Vectors are tuples and compare lexicographically;
  \<^verbatim>\<open>zip_longest\<close> pads the shorter sequence with \<^verbatim>\<open>None\<close>, and comparing a vector
  with \<^verbatim>\<open>None\<close> is a type error. The other operand is any iterable of vectors: another
  range, or a list or tuple of vectors (\<open>vector_seq\<close>, iterated by \<open>seq_iter\<close>).\<close>

definition Vector_lt :: "Vector \<Rightarrow> Vector \<Rightarrow> bool" where
  "Vector_lt a b =
     (vx a < vx b \<or> (vx a = vx b \<and> (vy a < vy b \<or> (vy a = vy b \<and> vz a < vz b))))"

fun lt_loop :: "(error + Vector) list \<Rightarrow> (error + Vector) list \<Rightarrow> error + bool" where
  "lt_loop [] [] = Inr False"
| "lt_loop (a # as) [] = (case a of Inl e \<Rightarrow> Inl e | Inr v1 \<Rightarrow> Inl TypeError)"
| "lt_loop [] (b # bs) = (case b of Inl e \<Rightarrow> Inl e | Inr v2 \<Rightarrow> Inl TypeError)"
| "lt_loop (a # as) (b # bs) =
     (case a of
        Inl e \<Rightarrow> Inl e
      | Inr v1 \<Rightarrow>
          (case b of
             Inl e \<Rightarrow> Inl e
           | Inr v2 \<Rightarrow>
               if Vector_lt v1 v2 then Inr True
               else if Vector_lt v2 v1 then Inr False
               else lt_loop as bs))"

datatype vector_seq = OfRange vector_range | OfList "Vector list"

fun seq_iter :: "vector_seq \<Rightarrow> (error + Vector) list" where
  "seq_iter (OfRange r) = vr_iter r"
| "seq_iter (OfList vs) = map Inr vs"

definition vr_lt :: "vector_range \<Rightarrow> vector_seq \<Rightarrow> error + bool" where
  "vr_lt self other = lt_loop (vr_iter self) (seq_iter other)"

text \<open>The ranges a caller can hold: built by the constructor without a window, or sliced
  from such a range.\<close>

inductive reachable :: "vector_range \<Rightarrow> bool" where
  constructed:
    "vector_range_init start stop step order None = Inr r \<Longrightarrow> reachable r"
| sliced:
    "reachable r \<Longrightarrow> vr_getslice r sl = Inr r' \<Longrightarrow> reachable r'"

text \<open>The slice of a Python list, for comparison: \<^verbatim>\<open>slice.indices\<close> clamps the bounds
  to \<open>[0, n]\<close> for a positive step and to \<open>[-1, n - 1]\<close> for a negative one, and the
  result holds the elements at the indices of \<^verbatim>\<open>range(start, stop, step)\<close>.\<close>

definition slice_indices :: "int \<Rightarrow> pyslice \<Rightarrow> error + pyrange" where
  "slice_indices n sl =
     (let step = (case sl_step sl of None \<Rightarrow> 1 | Some s \<Rightarrow> s) in
      if step = 0 then Inl ValueError
      else
        let lower = (if step < 0 then - 1 else 0);
            upper = (if step < 0 then n - 1 else n);
            start = (case sl_start sl of
                       None \<Rightarrow> (if step < 0 then upper else lower)
                     | Some s \<Rightarrow> if s < 0 then max (s + n) lower else min s upper);
            stop = (case sl_stop sl of
                      None \<Rightarrow> (if step < 0 then lower else upper)
                    | Some s \<Rightarrow> if s < 0 then max (s + n) lower else min s upper)
        in Inr (PyRange start stop step))"

definition list_slice :: "'a list \<Rightarrow> pyslice \<Rightarrow> error + 'a list" where
  "list_slice xs sl =
     and_then (slice_indices (int (length xs)) sl)
       (\<lambda>w. Inr (map (\<lambda>i. xs ! nat i) (range_iter w)))"

text \<open>Concrete ranges: the cube \<^verbatim>\<open>vector_range(Vector(2, 2, 2))\<close> of the tests in the
  default order, the lines \<^verbatim>\<open>vector_range(Vector(1, 1, 1))\<close>,
  \<^verbatim>\<open>vector_range(Vector(1, 1, 2))\<close> and \<^verbatim>\<open>vector_range(Vector(1, 1, 50))\<close>, and the line
  \<^verbatim>\<open>vector_range(Vector(1, 1, 2**63))\<close> of \<^verbatim>\<open>sys.maxsize + 1\<close> vectors.\<close>

definition cube_zxy :: vector_range where
  "cube_zxy =
     \<lparr> vr_start = Vector 0 0 0, vr_stop = Vector 2 2 2, vr_step = Vector 1 1 1,
       vr_order = ''zxy'', vr_ranges = [PyRange 0 2 1, PyRange 0 2 1, PyRange 0 2 1],
       vr_indexes = [1, 2, 0], vr_slice = None \<rparr>"

definition line1 :: vector_range where
  "line1 =
     \<lparr> vr_start = Vector 0 0 0, vr_stop = Vector 1 1 1, vr_step = Vector 1 1 1,
       vr_order = ''zxy'', vr_ranges = [PyRange 0 1 1, PyRange 0 1 1, PyRange 0 1 1],
       vr_indexes = [1, 2, 0], vr_slice = None \<rparr>"

definition line2 :: vector_range where
  "line2 =
     \<lparr> vr_start = Vector 0 0 0, vr_stop = Vector 1 1 2, vr_step = Vector 1 1 1,
       vr_order = ''zxy'', vr_ranges = [PyRange 0 2 1, PyRange 0 1 1, PyRange 0 1 1],
       vr_indexes = [1, 2, 0], vr_slice = None \<rparr>"


definition huge_line :: vector_range where
  "huge_line =
     \<lparr> vr_start = Vector 0 0 0, vr_stop = Vector 1 1 (2 ^ 63), vr_step = Vector 1 1 1,
       vr_order = ''zxy'', vr_ranges = [PyRange 0 (2 ^ 63) 1, PyRange 0 1 1, PyRange 0 1 1],
       vr_indexes = [1, 2, 0], vr_slice = None \<rparr>"

section \<open>Notions used to state and prove the properties\<close>

text \<open>The two halves of indexing, with every length that fits taken as it is.
  \<open>raw_getitem\<close> is the tail of \<^verbatim>\<open>__getitem__\<close> after the window has resolved the index,
  \<open>raw_index\<close> the part of \<^verbatim>\<open>index\<close> before the window is consulted. They are the methods'
  own computations whenever the axis lengths fit (lemmas \<open>vr_getitem_unfold\<close> and
  \<open>vr_index_unfold\<close>); the properties are stated on \<open>vr_getitem\<close> and \<open>vr_index\<close>.\<close>

definition raw_getitem :: "vector_range \<Rightarrow> int \<Rightarrow> error + Vector" where
  "raw_getitem self index =
       and_then (list_getitem (vr_ranges self) 0) (\<lambda>r0.
       and_then (py_mod index (range_len r0)) (\<lambda>p0.
       and_then (range_getitem r0 p0) (\<lambda>v0.
       and_then (list_getitem (vr_ranges self) 1) (\<lambda>r1.
       and_then (py_floordiv index (range_len r0)) (\<lambda>q.
       and_then (py_mod q (range_len r1)) (\<lambda>p1.
       and_then (range_getitem r1 p1) (\<lambda>v1.
       and_then (list_getitem (vr_ranges self) 2) (\<lambda>r2.
       and_then (py_floordiv index (range_len r0 * range_len r1)) (\<lambda>p2.
       and_then (range_getitem r2 p2) (\<lambda>v2.
       and_then (collect (map (list_getitem [v0, v1, v2]) (vr_indexes self)))
         Vector_new))))))))))"

definition raw_index :: "vector_range \<Rightarrow> Vector \<Rightarrow> error + int" where
  "raw_index self val =
     and_then (collect (map (getattr val) (vr_order self))) (\<lambda>ijk.
     case ijk of
       [i, j, k] \<Rightarrow>
         and_then (product (map range_len (vr_ranges self))) (\<lambda>l.
         and_then (list_getitem (vr_ranges self) 0) (\<lambda>r0.
         and_then (range_index r0 i) (\<lambda>i0.
         and_then (rmod (range_len r0) i0 (NumRange (PyRange 0 l 1))) (\<lambda>i_indexes.
         and_then (list_getitem (vr_ranges self) 1) (\<lambda>r1.
         and_then (range_index r1 j) (\<lambda>j0.
         and_then (py_floordiv l (range_len r0)) (\<lambda>q.
         and_then (rmod (range_len r1) j0 (NumRange (PyRange 0 q 1))) (\<lambda>as.
         and_then (collect (map (rdiv (range_len r0)) as)) (\<lambda>bs.
         and_then (list_getitem (vr_ranges self) 2) (\<lambda>r2.
         and_then (range_index r2 k) (\<lambda>k0.
         and_then (rdiv (range_len r0 * range_len r1) k0) (\<lambda>k_indexes.
         case filter (\<lambda>n. n \<in> set (concat bs) \<and> n \<in> set k_indexes) (remdups i_indexes) of
           [result] \<Rightarrow> Inr result
         | _ \<Rightarrow> Inl AssertionError))))))))))))
     | _ \<Rightarrow> Inl ValueError)"

text \<open>The value at a position of a progression.\<close>

definition progression :: "pyrange \<Rightarrow> int \<Rightarrow> int" where
  "progression P p = r_start P + p * r_step P"

text \<open>The six axis orders, the component of a vector along an axis, and the shape the
  constructor gives a range.\<close>

definition valid_order :: "string \<Rightarrow> bool" where
  "valid_order order = (order \<in> set [''xyz'', ''xzy'', ''yxz'', ''yzx'', ''zxy'', ''zyx''])"

definition axis :: "Vector \<Rightarrow> char \<Rightarrow> int" where
  "axis v c = (if c = CHR ''x'' then vx v else if c = CHR ''y'' then vy v else vz v)"

definition axis_range :: "Vector \<Rightarrow> Vector \<Rightarrow> Vector \<Rightarrow> char \<Rightarrow> pyrange" where
  "axis_range start stop step c = PyRange (axis start c) (axis stop c) (axis step c)"

definition axis_pos :: "string \<Rightarrow> char \<Rightarrow> int" where
  "axis_pos order c = (if order ! 0 = c then 0 else if order ! 1 = c then 1 else 2)"

definition unwindowed :: "Vector \<Rightarrow> Vector \<Rightarrow> Vector \<Rightarrow> string \<Rightarrow> vector_range" where
  "unwindowed start stop step order =
     \<lparr> vr_start = start, vr_stop = stop, vr_step = step, vr_order = order,
       vr_ranges = map (axis_range start stop step) order,
       vr_indexes = map (axis_pos order) ''xyz'', vr_slice = None \<rparr>"

definition nonzero :: "Vector \<Rightarrow> bool" where
  "nonzero step = (vx step \<noteq> 0 \<and> vy step \<noteq> 0 \<and> vz step \<noteq> 0)"

definition valid_vr :: "vector_range \<Rightarrow> bool" where
  "valid_vr r =
     (valid_order (vr_order r) \<and> nonzero (vr_step r)
      \<and> r \<lparr> vr_slice := None \<rparr> = unwindowed (vr_start r) (vr_stop r) (vr_step r) (vr_order r))"

text \<open>The number of raw indices: the product of the lengths of the three progressions.\<close>

definition raw_len :: "vector_range \<Rightarrow> int" where
  "raw_len r = foldl (*) 1 (map range_len (vr_ranges r))"

text \<open>Every length the methods take with \<^verbatim>\<open>len\<close> fits: the length of each axis, their
  product, and the length of the window.\<close>

definition fits :: "vector_range \<Rightarrow> bool" where
  "fits r =
     ((\<forall>R \<in> set (vr_ranges r). range_len R \<le> maxsize) \<and> raw_len r \<le> maxsize
      \<and> (case vr_slice r of None \<Rightarrow> True | Some w \<Rightarrow> range_len w \<le> maxsize))"

text \<open>The window holds no negative raw index.\<close>

definition window_ok :: "vector_range \<Rightarrow> bool" where
  "window_ok r =
     (case vr_slice r of
        None \<Rightarrow> True
      | Some w \<Rightarrow> r_step w \<noteq> 0
          \<and> (range_len w = 0 \<or> (0 \<le> r_start w \<and> 0 \<le> progression w (range_len w - 1))))"

text \<open>The forward mapping in the words of the specification: the positions of a linear
  index along the three progressions, each mapped through its progression, and the three
  values placed into \<open>(x, y, z)\<close> according to the order.\<close>

definition place :: "string \<Rightarrow> int \<Rightarrow> int \<Rightarrow> int \<Rightarrow> Vector" where
  "place order v0 v1 v2 =
     (let pick = (\<lambda>c. if order ! 0 = c then v0 else if order ! 1 = c then v1 else v2)
      in Vector (pick CHR ''x'') (pick CHR ''y'') (pick CHR ''z''))"

definition spec_getitem :: "Vector \<Rightarrow> Vector \<Rightarrow> Vector \<Rightarrow> string \<Rightarrow> int \<Rightarrow> Vector" where
  "spec_getitem start stop step order i =
     (let P0 = axis_range start stop step (order ! 0);
          P1 = axis_range start stop step (order ! 1);
          P2 = axis_range start stop step (order ! 2)
      in place order
           (progression P0 (i mod range_len P0))
           (progression P1 ((i div range_len P0) mod range_len P1))
           (progression P2 (i div (range_len P0 * range_len P1))))"

text \<open>The lattice of a range: the vectors whose components lie on the three
  progressions.\<close>

definition lattice :: "Vector \<Rightarrow> Vector \<Rightarrow> Vector \<Rightarrow> Vector set" where
  "lattice start stop step =
     {v. range_contains (axis_range start stop step CHR ''x'') (vx v)
       \<and> range_contains (axis_range start stop step CHR ''y'') (vy v)
       \<and> range_contains (axis_range start stop step CHR ''z'') (vz v)}"

text \<open>Two slices of the cube: \<^verbatim>\<open>[1:]\<close> and \<^verbatim>\<open>[8::-2]\<close>.\<close>

definition cube_tail :: vector_range where
  "cube_tail = cube_zxy \<lparr> vr_slice := Some (PyRange 1 8 1) \<rparr>"

definition cube_back :: vector_range where
  "cube_back = cube_zxy \<lparr> vr_slice := Some (PyRange 8 (- 1) (- 2)) \<rparr>"

definition cube_xyz :: vector_range where
  "cube_xyz =
     \<lparr> vr_start = Vector 0 0 0, vr_stop = Vector 2 2 2, vr_step = Vector 1 1 1,
       vr_order = ''xyz'', vr_ranges = [PyRange 0 2 1, PyRange 0 2 1, PyRange 0 2 1],
       vr_indexes = [0, 1, 2], vr_slice = None \<rparr>"

text \<open>The first position where two sequences differ: a common prefix, then two elements
  of which the first is smaller.\<close>

definition differ_lt :: "Vector list \<Rightarrow> Vector list \<Rightarrow> bool" where
  "differ_lt xs ys =
     (\<exists>ps a b xs' ys'. xs = ps @ a # xs' \<and> ys = ps @ b # ys' \<and> Vector_lt a b)"

section \<open>Properties of ranges and of the index arithmetic\<close>

subsection \<open>Lengths, membership and lookup in a range\<close>

declare range_len.simps [simp del] range_contains.simps [simp del] range_index.simps [simp del]
  range_getitem.simps [simp del] range_iter.simps [simp del]

lemma le_div_iff_int:
  assumes "0 < (s::int)" shows "(i \<le> m div s) = (i * s \<le> m)"
proof
  assume "i \<le> m div s"
  then have "i * s \<le> (m div s) * s" using assms by (simp add: mult_right_mono)
  moreover have "m div s * s + m mod s = m" by simp
  moreover have "0 \<le> m mod s" using assms by simp
  ultimately show "i * s \<le> m" by linarith
next
  assume "i * s \<le> m"
  then have "(i * s) div s \<le> m div s" using assms by (rule zdiv_mono1)
  then show "i \<le> m div s" using assms by simp
qed

lemma range_len_nonneg: "s \<noteq> 0 \<Longrightarrow> 0 \<le> range_len (PyRange a b s)"
  by (auto simp: range_len.simps pos_imp_zdiv_nonneg_iff)

lemma range_len_pos_step:
  assumes "0 < s" "0 \<le> i"
  shows "(i < range_len (PyRange a b s)) = (a + i * s < b)"
proof (cases "a < b")
  case True
  have "(i < (b - a - 1) div s + 1) = (i \<le> (b - a - 1) div s)" by auto
  also have "\<dots> = (i * s \<le> b - a - 1)" using assms by (simp add: le_div_iff_int)
  finally show ?thesis using True assms by (auto simp: range_len.simps)
next
  case False
  have "0 \<le> i * s" using assms by simp
  then have "\<not> a + i * s < b" using False by linarith
  moreover have "\<not> i < range_len (PyRange a b s)" using False assms by (simp add: range_len.simps)
  ultimately show ?thesis by blast
qed

lemma range_len_neg_step:
  assumes "s < 0" "0 \<le> i"
  shows "(i < range_len (PyRange a b s)) = (b < a + i * s)"
proof (cases "b < a")
  case True
  have "(i < (a - b - 1) div (- s) + 1) = (i \<le> (a - b - 1) div (- s))" by auto
  also have "\<dots> = (i * (- s) \<le> a - b - 1)" using assms by (simp add: le_div_iff_int)
  finally show ?thesis using True assms by (auto simp: range_len.simps)
next
  case False
  have "i * s \<le> 0" using assms by (simp add: mult_nonneg_nonpos)
  then have "\<not> b < a + i * s" using False by linarith
  moreover have "\<not> i < range_len (PyRange a b s)" using False assms by (simp add: range_len.simps)
  ultimately show ?thesis by blast
qed

lemma range_contains_iff:
  assumes "s \<noteq> 0"
  shows "range_contains (PyRange a b s) v =
         (\<exists>i. 0 \<le> i \<and> i < range_len (PyRange a b s) \<and> v = a + i * s)"
proof (cases "0 < s")
  case True
  show ?thesis
  proof
    assume c: "range_contains (PyRange a b s) v"
    then have 1: "a \<le> v" "v < b" "(v - a) mod s = 0" using True by (auto simp: range_contains.simps)
    define i where "i = (v - a) div s"
    have "s dvd (v - a)" using 1(3) by (simp add: dvd_eq_mod_eq_0)
    then have "(v - a) div s * s = v - a" by (rule dvd_div_mult_self)
    then have v: "v = a + i * s" unfolding i_def by linarith
    have "0 \<le> i" unfolding i_def using 1(1) True by (simp add: pos_imp_zdiv_nonneg_iff)
    moreover have "i < range_len (PyRange a b s)"
      using range_len_pos_step[OF True \<open>0 \<le> i\<close>, of a b] v 1(2) by simp
    ultimately show "\<exists>i. 0 \<le> i \<and> i < range_len (PyRange a b s) \<and> v = a + i * s"
      using v by blast
  next
    assume "\<exists>i. 0 \<le> i \<and> i < range_len (PyRange a b s) \<and> v = a + i * s"
    then obtain i where i: "0 \<le> i" "i < range_len (PyRange a b s)" "v = a + i * s" by blast
    have "v < b" using range_len_pos_step[OF True i(1), of a b] i by simp
    moreover have "a \<le> v" using i True by simp
    ultimately show "range_contains (PyRange a b s) v" using True i(3) by (simp add: range_contains.simps)
  qed
next
  case False
  then have neg: "s < 0" using assms by simp
  show ?thesis
  proof
    assume c: "range_contains (PyRange a b s) v"
    then have 1: "v \<le> a" "b < v" "(v - a) mod s = 0" using neg by (auto simp: range_contains.simps)
    define i where "i = (v - a) div s"
    have "s dvd (v - a)" using 1(3) by (simp add: dvd_eq_mod_eq_0)
    then have "(v - a) div s * s = v - a" by (rule dvd_div_mult_self)
    then have v: "v = a + i * s" unfolding i_def by linarith
    have "0 \<le> i" unfolding i_def using 1(1) neg
      by (simp add: neg_imp_zdiv_nonneg_iff)
    moreover have "i < range_len (PyRange a b s)"
      using range_len_neg_step[OF neg \<open>0 \<le> i\<close>, of a b] v 1(2) by simp
    ultimately show "\<exists>i. 0 \<le> i \<and> i < range_len (PyRange a b s) \<and> v = a + i * s"
      using v by blast
  next
    assume "\<exists>i. 0 \<le> i \<and> i < range_len (PyRange a b s) \<and> v = a + i * s"
    then obtain i where i: "0 \<le> i" "i < range_len (PyRange a b s)" "v = a + i * s" by blast
    have "b < v" using range_len_neg_step[OF neg i(1), of a b] i by simp
    moreover have "i * s \<le> 0" using i(1) neg by (simp add: mult_nonneg_nonpos)
    then have "v \<le> a" using i by simp
    ultimately show "range_contains (PyRange a b s) v" using neg i(3) by (simp add: range_contains.simps)
  qed
qed

lemma range_index_Inr_iff:
  assumes "s \<noteq> 0"
  shows "(range_index (PyRange a b s) v = Inr i) =
         (0 \<le> i \<and> i < range_len (PyRange a b s) \<and> v = a + i * s)"
proof
  assume "range_index (PyRange a b s) v = Inr i"
  then have c: "range_contains (PyRange a b s) v" and i: "i = (v - a) div s"
    by (auto simp: range_index.simps split: if_splits)
  from c obtain j where j: "0 \<le> j" "j < range_len (PyRange a b s)" "v = a + j * s"
    unfolding range_contains_iff[OF assms] by blast
  have "(v - a) div s = j" using j(3) assms by simp
  then show "0 \<le> i \<and> i < range_len (PyRange a b s) \<and> v = a + i * s"
    using i j by simp
next
  assume r: "0 \<le> i \<and> i < range_len (PyRange a b s) \<and> v = a + i * s"
  then have "range_contains (PyRange a b s) v"
    unfolding range_contains_iff[OF assms] by blast
  moreover have "(v - a) div s = i" using r assms by simp
  ultimately show "range_index (PyRange a b s) v = Inr i"
    by (simp add: range_index.simps)
qed

lemma range_index_Inl_iff:
  assumes "s \<noteq> 0"
  shows "(range_index (PyRange a b s) v = Inl e) =
         (e = ValueError \<and> \<not> (\<exists>i. 0 \<le> i \<and> i < range_len (PyRange a b s) \<and> v = a + i * s))"
  unfolding range_contains_iff[OF assms, symmetric]
  by (auto simp: range_index.simps)

lemma range_index_error:
  "range_index R v = Inl e \<Longrightarrow> e = ValueError"
  by (cases R) (auto simp: range_index.simps split: if_splits)

lemma range_getitem_in:
  "0 \<le> i \<Longrightarrow> i < range_len (PyRange a b s) \<Longrightarrow> range_getitem (PyRange a b s) i = Inr (a + i * s)"
  by (simp add: range_getitem.simps Let_def)

lemma range_getitem_Inr:
  "0 \<le> i \<Longrightarrow> range_getitem (PyRange a b s) i = Inr v \<Longrightarrow> i < range_len (PyRange a b s) \<and> v = a + i * s"
  by (auto simp add: range_getitem.simps Let_def split: if_splits)

subsection \<open>The inverse helpers on ranges of step 1\<close>

lemma set_range_iter:
  "set (range_iter (PyRange a b s)) =
   {v. \<exists>i. 0 \<le> i \<and> i < range_len (PyRange a b s) \<and> v = a + i * s}"
  by (auto simp: range_iter.simps)

lemma distinct_range_iter: "s \<noteq> 0 \<Longrightarrow> distinct (range_iter (PyRange a b s))"
  by (simp add: range_iter.simps distinct_map inj_on_def)

lemma set_range_iter_contains:
  "s \<noteq> 0 \<Longrightarrow> set (range_iter (PyRange a b s)) = {v. range_contains (PyRange a b s) v}"
  by (simp add: set_range_iter range_contains_iff)

lemma set_range_iter_pos:
  "0 < s \<Longrightarrow> set (range_iter (PyRange a b s)) = {v. a \<le> v \<and> v < b \<and> (v - a) mod s = 0}"
  by (auto simp: set_range_iter_contains range_contains.simps)

lemma set_range_iter_unit: "set (range_iter (PyRange a b 1)) = {v. a \<le> v \<and> v < b}"
  by (simp add: set_range_iter_pos)

lemma range_len_unit: "range_len (PyRange a b 1) = (if a < b then b - a else 0)"
  by (simp add: range_len.simps)

lemma maxsize_pos: "0 < maxsize"
  by (simp add: maxsize_def)

lemma py_len_Inr_iff: "(py_len n = Inr m) = (0 \<le> n \<and> n \<le> maxsize \<and> m = n)"
  by (auto simp: py_len_def)

lemma py_len_Inr: "0 \<le> n \<Longrightarrow> n \<le> maxsize \<Longrightarrow> py_len n = Inr n"
  by (simp add: py_len_def)

lemma py_len_overflow: "maxsize < n \<Longrightarrow> py_len n = Inl OverflowError"
  using maxsize_pos by (simp add: py_len_def)

lemma len_range_Inr_iff:
  "r_step R \<noteq> 0 \<Longrightarrow> (len_range R = Inr m) = (range_len R \<le> maxsize \<and> m = range_len R)"
  using range_len_nonneg[of "r_step R" "r_start R" "r_stop R"]
  by (auto simp: len_range_def py_len_Inr_iff)

lemma len_range_Inr:
  "r_step R \<noteq> 0 \<Longrightarrow> range_len R \<le> maxsize \<Longrightarrow> len_range R = Inr (range_len R)"
  by (simp add: len_range_Inr_iff)

lemma len_range_overflow: "maxsize < range_len R \<Longrightarrow> len_range R = Inl OverflowError"
  by (simp add: len_range_def py_len_overflow)

lemma rmod_start:
  fixes a d res v :: int
  assumes "0 < d" "0 \<le> res" "res < d"
  shows "(a + (res - a mod d) mod d \<le> v \<and> (v - (a + (res - a mod d) mod d)) mod d = 0)
         = (a \<le> v \<and> v mod d = res)"
proof -
  define st where "st = a + (res - a mod d) mod d"
  have m: "st mod d = res"
  proof -
    have "st mod d = (a mod d + (res - a mod d) mod d) mod d"
      unfolding st_def by (simp add: mod_add_left_eq)
    also have "\<dots> = (a mod d + (res - a mod d)) mod d"
      by (simp add: mod_add_right_eq)
    also have "\<dots> = res mod d" by simp
    finally show ?thesis using assms by simp
  qed
  have lo: "a \<le> st" unfolding st_def using assms by simp
  have hi: "st < a + d" unfolding st_def using assms by simp
  have "(st \<le> v \<and> (v - st) mod d = 0) = (a \<le> v \<and> v mod d = res)"
  proof
    assume h: "st \<le> v \<and> (v - st) mod d = 0"
    then have "v mod d = st mod d"
      by (metis mod_eq_dvd_iff dvd_eq_mod_eq_0)
    then show "a \<le> v \<and> v mod d = res" using h lo m by simp
  next
    assume h: "a \<le> v \<and> v mod d = res"
    then have e: "v mod d = st mod d" using m by simp
    then have z: "(v - st) mod d = 0"
      by (metis mod_eq_dvd_iff dvd_eq_mod_eq_0)
    have "st \<le> v"
    proof (rule ccontr)
      assume "\<not> st \<le> v"
      then have p: "0 < st - v" by simp
      have "d dvd (st - v)" using e by (metis mod_eq_dvd_iff)
      then have "d \<le> st - v" using p by (rule zdvd_imp_le)
      then show False using hi h by linarith
    qed
    then show "st \<le> v \<and> (v - st) mod d = 0" using z by simp
  qed
  then show ?thesis unfolding st_def .
qed

lemma rmod_out_of_range:
  "0 < d \<Longrightarrow> \<not> (0 \<le> res \<and> res < d) \<Longrightarrow> rmod d res nr = Inr []"
  by (simp add: rmod_def)

lemma rmod_unit_eq:
  assumes "0 < d" "0 \<le> res" "res < d" "a < b" "b - a \<le> maxsize"
  shows "rmod d res (NumRange (PyRange a b 1)) =
         Inr (range_iter (PyRange (a + (res - a mod d) mod d) b d))"
proof -
  have l: "range_len (PyRange a b 1) = b - a" using assms by (simp add: range_len_unit)
  have g1: "range_getitem (PyRange a b 1) (- 1) = Inr (b - 1)"
    using assms by (simp add: range_getitem.simps l Let_def)
  have g0: "range_getitem (PyRange a b 1) 0 = Inr a"
    using assms by (simp add: range_getitem.simps l Let_def)
  show ?thesis
    using assms by (simp add: rmod_def l g1 g0 and_then_def py_range_def py_len_def Let_def)
qed

lemma rmod_unit_step:
  assumes "0 < d" "b - a \<le> maxsize"
  shows "\<exists>xs. rmod d res (NumRange (PyRange a b 1)) = Inr xs \<and> distinct xs
          \<and> set xs = {n. a \<le> n \<and> n < b \<and> n mod d = res}"
proof (cases "0 \<le> res \<and> res < d")
  case False
  have "n mod d \<noteq> res" for n
  proof
    assume "n mod d = res"
    moreover have "0 \<le> n mod d" "n mod d < d" using assms by simp_all
    ultimately show False using False by simp
  qed
  then have "{n. a \<le> n \<and> n < b \<and> n mod d = res} = {}" by simp
  then show ?thesis using rmod_out_of_range[OF assms(1) False] by simp
next
  case True
  show ?thesis
  proof (cases "a < b")
    case False
    then have "range_len (PyRange a b 1) = 0" by (simp add: range_len_unit)
    then have "rmod d res (NumRange (PyRange a b 1)) = Inr []"
      using assms True maxsize_pos by (simp add: rmod_def py_len_def and_then_def)
    moreover have "{n. a \<le> n \<and> n < b \<and> n mod d = res} = {}" using False by auto
    ultimately show ?thesis by simp
  next
    case ab: True
    define st where "st = a + (res - a mod d) mod d"
    from True have r: "0 \<le> res" "res < d" by auto
    have e: "(st \<le> v \<and> (v - st) mod d = 0) = (a \<le> v \<and> v mod d = res)" for v
      unfolding st_def by (rule rmod_start[OF assms(1) r])
    have "set (range_iter (PyRange st b d)) = {v. st \<le> v \<and> v < b \<and> (v - st) mod d = 0}"
      using assms by (simp add: set_range_iter_pos)
    also have "\<dots> = {n. a \<le> n \<and> n < b \<and> n mod d = res}"
    proof (rule Collect_cong)
      fix v show "(st \<le> v \<and> v < b \<and> (v - st) mod d = 0) = (a \<le> v \<and> v < b \<and> v mod d = res)"
        using e[of v] by argo
    qed
    finally have s: "set (range_iter (PyRange st b d)) = {n. a \<le> n \<and> n < b \<and> n mod d = res}" .
    have "rmod d res (NumRange (PyRange a b 1)) = Inr (range_iter (PyRange st b d))"
      unfolding st_def by (rule rmod_unit_eq[OF assms(1) r ab assms(2)])
    moreover have "distinct (range_iter (PyRange st b d))"
      using assms by (simp add: distinct_range_iter)
    ultimately show ?thesis using s by simp
  qed
qed

lemma rdiv_exact:
  assumes "0 < d"
  shows "rdiv d q = Inr (range_iter (PyRange (q * d) (q * d + d) 1))"
  using assms by (simp add: rdiv_def py_range_def and_then_def)

lemma rdiv_set:
  assumes "0 < d" "rdiv d q = Inr xs"
  shows "set xs = {n. n div d = q}" "distinct xs"
proof -
  have xs: "xs = range_iter (PyRange (q * d) (q * d + d) 1)"
    using assms rdiv_exact by simp
  have "\<And>n. (q * d \<le> n \<and> n < q * d + d) = (n div d = q)"
  proof
    fix n assume "q * d \<le> n \<and> n < q * d + d"
    then have "0 \<le> n - q * d" "n - q * d < d" by auto
    then have "(n - q * d) div d = 0" by simp
    moreover have "(n - q * d) div d = n div d - q"
      using assms(1) by (metis add.commute diff_add_cancel div_mult_self1 less_irrefl add_diff_cancel_left')
    ultimately show "n div d = q" by simp
  next
    fix n assume "n div d = q"
    moreover have "n div d * d + n mod d = n" by simp
    moreover have "0 \<le> n mod d" "n mod d < d" using assms(1) by simp_all
    ultimately show "q * d \<le> n \<and> n < q * d + d" by auto
  qed
  then show "set xs = {n. n div d = q}" unfolding xs by (simp add: set_range_iter_unit)
  show "distinct xs" unfolding xs by (simp add: distinct_range_iter)
qed

lemma and_then_assoc: "and_then (and_then m f) g = and_then m (\<lambda>x. and_then (f x) g)"
  by (simp add: and_then_def split: sum.splits)

lemma and_then_Inr [simp]: "and_then (Inr a) f = f a"
  by (simp add: and_then_def)

lemma and_then_Inl [simp]: "and_then (Inl e) f = Inl e"
  by (simp add: and_then_def)

lemma list_getitem_3 [simp]:
  "list_getitem [a, b, c] 0 = Inr a"
  "list_getitem [a, b, c] 1 = Inr b"
  "list_getitem [a, b, c] 2 = Inr c"
  by (simp_all add: list_getitem_def)

lemma vr_getitem_unfold:
  assumes "vr_ranges self = [R0, R1, R2]" "r_step R0 \<noteq> 0" "r_step R1 \<noteq> 0"
    and "range_len R0 \<le> maxsize" "range_len R1 \<le> maxsize"
  shows "vr_getitem self index =
     and_then (vr_len self) (\<lambda>n.
     let index = (if index < 0 then index + n else index) in
     if \<not> (0 \<le> index \<and> index < n) then Inl IndexError
     else and_then (case vr_slice self of None \<Rightarrow> Inr index | Some w \<Rightarrow> range_getitem w index)
            (raw_getitem self))"
  unfolding vr_getitem_def raw_getitem_def using assms
  by (simp add: len_range_Inr cong: if_cong)

lemma index_sets_unfold:
  assumes "vr_ranges self = [R0, R1, R2]" "r_step R0 \<noteq> 0" "r_step R1 \<noteq> 0" "r_step R2 \<noteq> 0"
    and "range_len R0 \<le> maxsize" "range_len R1 \<le> maxsize" "range_len R2 \<le> maxsize"
  shows "raw_index self val =
     and_then (index_sets self val) (\<lambda>(i_indexes, j_indexes, k_indexes).
     case filter (\<lambda>n. n \<in> set j_indexes \<and> n \<in> set k_indexes) (remdups i_indexes) of
       [result] \<Rightarrow> Inr result
     | _ \<Rightarrow> Inl AssertionError)"
  unfolding index_sets_def raw_index_def using assms
  by (simp add: len_range_Inr and_then_def split: sum.splits list.splits)

lemma vr_index_unfold:
  assumes "vr_ranges self = [R0, R1, R2]" "r_step R0 \<noteq> 0" "r_step R1 \<noteq> 0" "r_step R2 \<noteq> 0"
    and "range_len R0 \<le> maxsize" "range_len R1 \<le> maxsize" "range_len R2 \<le> maxsize"
  shows "vr_index self val =
     and_then (raw_index self val)
       (\<lambda>result. case vr_slice self of None \<Rightarrow> Inr result | Some w \<Rightarrow> range_index w result)"
  unfolding vr_index_def index_sets_unfold[OF assms]
  by (simp add: and_then_def split: sum.splits list.splits prod.splits)

lemma range_len_ge0: "r_step R \<noteq> 0 \<Longrightarrow> 0 \<le> range_len R"
  by (cases R) (simp add: range_len_nonneg)

lemma range_getitem_prog:
  "0 \<le> p \<Longrightarrow> p < range_len R \<Longrightarrow> range_getitem R p = Inr (progression R p)"
  by (cases R) (simp add: range_getitem_in progression_def)

lemma range_getitem_Inr_prog:
  "0 \<le> p \<Longrightarrow> range_getitem R p = Inr v \<Longrightarrow> p < range_len R \<and> v = progression R p"
  by (cases R) (auto simp: progression_def dest: range_getitem_Inr)

lemma range_index_iff:
  "r_step R \<noteq> 0 \<Longrightarrow>
   (range_index R v = Inr i) = (0 \<le> i \<and> i < range_len R \<and> v = progression R i)"
  by (cases R) (simp add: range_index_Inr_iff progression_def)

lemma range_index_cases:
  "range_index R v = Inl ValueError \<or> (\<exists>i. range_index R v = Inr i)"
  by (cases R) (simp add: range_index.simps)

lemma progression_inj:
  "r_step R \<noteq> 0 \<Longrightarrow> progression R i = progression R j \<Longrightarrow> i = j"
  by (simp add: progression_def)

text \<open>Mixed-radix digits of a raw index.\<close>

lemma digits_bounds:
  fixes n l0 l1 l2 :: int
  assumes "0 \<le> n" "n < l0 * l1 * l2" "0 \<le> l0" "0 \<le> l1" "0 \<le> l2"
  shows "0 < l0" "0 < l1" "0 < l2"
    "0 \<le> n mod l0" "n mod l0 < l0"
    "0 \<le> (n div l0) mod l1" "(n div l0) mod l1 < l1"
    "0 \<le> n div (l0 * l1)" "n div (l0 * l1) < l2"
proof -
  have p: "0 < l0 * l1 * l2" using assms by linarith
  show l0: "0 < l0" using p assms by (metis less_le mult_zero_left)
  show l1: "0 < l1" using p assms by (metis less_le mult_zero_left mult_zero_right)
  show l2: "0 < l2" using p assms by (metis less_le mult_zero_right)
  show "0 \<le> n mod l0" "n mod l0 < l0" using l0 by simp_all
  show "0 \<le> (n div l0) mod l1" "(n div l0) mod l1 < l1" using l1 by simp_all
  have k: "0 < l0 * l1" using l0 l1 by simp
  show "0 \<le> n div (l0 * l1)" using k assms(1) by (simp add: pos_imp_zdiv_nonneg_iff)
  have "\<not> l2 \<le> n div (l0 * l1)"
  proof
    assume "l2 \<le> n div (l0 * l1)"
    then have "l2 * (l0 * l1) \<le> n" using k by (simp add: le_div_iff_int)
    then show False using assms(2) by (simp add: mult.commute mult.left_commute)
  qed
  then show "n div (l0 * l1) < l2" by simp
qed

lemma digits_compose:
  fixes n l0 l1 :: int
  assumes "0 < l0" "0 < l1"
  shows "n mod l0 + l0 * ((n div l0) mod l1 + l1 * (n div (l0 * l1))) = n"
proof -
  have "n div (l0 * l1) = (n div l0) div l1" using assms by (simp add: zdiv_zmult2_eq)
  then have "(n div l0) mod l1 + l1 * (n div (l0 * l1)) = n div l0" by simp
  then show ?thesis by simp
qed

lemma digits_unique:
  fixes d0 d1 d2 l0 l1 :: int
  assumes "0 \<le> d0" "d0 < l0" "0 \<le> d1" "d1 < l1"
  defines "n \<equiv> d0 + l0 * (d1 + l1 * d2)"
  shows "n mod l0 = d0" "(n div l0) mod l1 = d1" "n div (l0 * l1) = d2"
proof -
  show a: "n mod l0 = d0" unfolding n_def using assms by simp
  have b: "n div l0 = d1 + l1 * d2" unfolding n_def using assms by simp
  show "(n div l0) mod l1 = d1" unfolding b using assms by simp
  have "n div (l0 * l1) = (n div l0) div l1" using assms by (simp add: zdiv_zmult2_eq)
  then show "n div (l0 * l1) = d2" unfolding b using assms by simp
qed

subsection \<open>Raw indexing\<close>

lemma raw_getitem_in:
  assumes ranges: "vr_ranges r = [R0, R1, R2]"
    and steps: "r_step R0 \<noteq> 0" "r_step R1 \<noteq> 0" "r_step R2 \<noteq> 0"
    and idx: "vr_indexes r = [p0, p1, p2]" "p0 \<in> {0, 1, 2}" "p1 \<in> {0, 1, 2}" "p2 \<in> {0, 1, 2}"
    and n: "0 \<le> n" "n < range_len R0 * range_len R1 * range_len R2"
  shows "raw_getitem r n =
     Inr (let vs = [progression R0 (n mod range_len R0),
                    progression R1 ((n div range_len R0) mod range_len R1),
                    progression R2 (n div (range_len R0 * range_len R1))]
          in Vector (vs ! nat p0) (vs ! nat p1) (vs ! nat p2))"
proof -
  note d = digits_bounds[OF n range_len_ge0[OF steps(1)] range_len_ge0[OF steps(2)]
      range_len_ge0[OF steps(3)]]
  have m0: "py_mod n (range_len R0) = Inr (n mod range_len R0)"
    using d(1) by (simp add: py_mod_def)
  have q0: "py_floordiv n (range_len R0) = Inr (n div range_len R0)"
    using d(1) by (simp add: py_floordiv_def)
  have m1: "py_mod (n div range_len R0) (range_len R1) = Inr ((n div range_len R0) mod range_len R1)"
    using d(2) by (simp add: py_mod_def)
  have q1: "py_floordiv n (range_len R0 * range_len R1) = Inr (n div (range_len R0 * range_len R1))"
    using d(1,2) by (simp add: py_floordiv_def)
  have g0: "range_getitem R0 (n mod range_len R0) = Inr (progression R0 (n mod range_len R0))"
    by (rule range_getitem_prog[OF d(4) d(5)])
  have g1: "range_getitem R1 ((n div range_len R0) mod range_len R1)
            = Inr (progression R1 ((n div range_len R0) mod range_len R1))"
    by (rule range_getitem_prog[OF d(6) d(7)])
  have g2: "range_getitem R2 (n div (range_len R0 * range_len R1))
            = Inr (progression R2 (n div (range_len R0 * range_len R1)))"
    by (rule range_getitem_prog[OF d(8) d(9)])
  have c: "list_getitem [a, b, c] p = Inr ([a, b, c] ! nat p)"
    if "p \<in> {0, 1, 2}" for a b c :: int and p
    using that by (auto simp: list_getitem_def)
  show ?thesis
    unfolding raw_getitem_def ranges idx(1)
    by (simp add: m0 q0 m1 q1 g0 g1 g2 c[OF idx(2)] c[OF idx(3)] c[OF idx(4)] Let_def)
qed

lemma raw_getitem_Inr:
  assumes ranges: "vr_ranges r = [R0, R1, R2]"
    and steps: "r_step R0 \<noteq> 0" "r_step R1 \<noteq> 0" "r_step R2 \<noteq> 0"
    and n: "0 \<le> n" and res: "raw_getitem r n = Inr v"
  shows "n < range_len R0 * range_len R1 * range_len R2"
proof -
  have l0: "range_len R0 \<noteq> 0"
    using res unfolding raw_getitem_def ranges by (auto simp: py_mod_def)
  then have p0: "0 < range_len R0" using range_len_ge0[OF steps(1)] by simp
  have l1: "range_len R1 \<noteq> 0"
    using res l0 unfolding raw_getitem_def ranges
    by (auto simp: py_mod_def py_floordiv_def and_then_def split: sum.splits)
  then have p1: "0 < range_len R1" using range_len_ge0[OF steps(2)] by simp
  have "\<exists>v2. range_getitem R2 (n div (range_len R0 * range_len R1)) = Inr v2"
    using res l0 l1 unfolding raw_getitem_def ranges
    by (auto simp: py_mod_def py_floordiv_def and_then_def split: sum.splits)
  moreover have "0 \<le> n div (range_len R0 * range_len R1)"
    using p0 p1 n by (simp add: pos_imp_zdiv_nonneg_iff)
  ultimately have "n div (range_len R0 * range_len R1) < range_len R2"
    using range_getitem_Inr_prog by blast
  then have "\<not> range_len R2 \<le> n div (range_len R0 * range_len R1)" by simp
  then have "\<not> range_len R2 * (range_len R0 * range_len R1) \<le> n"
    using p0 p1 by (simp add: le_div_iff_int)
  then show ?thesis by (simp add: mult.commute mult.left_commute)
qed

lemma collect_map_Inr:
  "(\<And>a. a \<in> set as \<Longrightarrow> f a = Inr (g a)) \<Longrightarrow> collect (map f as) = Inr (map g as)"
  by (induction as) simp_all

lemma singleton_list:
  assumes "distinct ys" "set ys = {x}"
  shows "ys = [x]"
proof (cases ys)
  case Nil
  then show ?thesis using assms by simp
next
  case (Cons y zs)
  then have "y = x" using assms(2) by auto
  moreover have "set zs \<subseteq> {x}" "x \<notin> set zs" using Cons assms \<open>y = x\<close> by auto
  then have "zs = []" by (cases zs) auto
  ultimately show ?thesis using Cons by simp
qed

lemma rdiv_range_set:
  assumes "0 < d"
  shows "set (range_iter (PyRange (q * d) (q * d + d) 1)) = {n. n div d = q}"
  using rdiv_set(1)[OF assms rdiv_exact[OF assms]] .

lemma index_candidates:
  fixes l0 l1 l2 d0 d1 d2 :: int
  assumes "0 \<le> d0" "d0 < l0" "0 \<le> d1" "d1 < l1" "0 \<le> d2" "d2 < l2"
  shows "{n. (0 \<le> n \<and> n < l0 * l1 * l2 \<and> n mod l0 = d0)
            \<and> (0 \<le> n div l0 \<and> n div l0 < l1 * l2 \<and> (n div l0) mod l1 = d1)
            \<and> n div (l0 * l1) = d2}
         = {d0 + l0 * (d1 + l1 * d2)}"
proof -
  define N where "N = d0 + l0 * (d1 + l1 * d2)"
  have l: "0 < l0" "0 < l1" "0 < l2" using assms by linarith+
  note u = digits_unique[OF assms(1-4), of d2, folded N_def]
  have m: "0 \<le> d1 + l1 * d2" using assms l by simp
  have "l1 * d2 \<le> l1 * (l2 - 1)" using assms l by (simp add: mult_left_mono)
  then have m': "d1 + l1 * d2 < l1 * l2" using assms by (simp add: right_diff_distrib)
  have n0: "0 \<le> N" unfolding N_def using assms l m by simp
  have "l0 * (d1 + l1 * d2) \<le> l0 * (l1 * l2 - 1)" using m' l by (simp add: mult_left_mono)
  then have n1: "N < l0 * l1 * l2" unfolding N_def using assms by (simp add: right_diff_distrib)
  have q: "N div l0 = d1 + l1 * d2" unfolding N_def using assms by simp
  have mem: "(0 \<le> N \<and> N < l0 * l1 * l2 \<and> N mod l0 = d0)
            \<and> (0 \<le> N div l0 \<and> N div l0 < l1 * l2 \<and> (N div l0) mod l1 = d1)
            \<and> N div (l0 * l1) = d2"
    using n0 n1 u m m' q by simp
  have uniq: "n = N"
    if "n mod l0 = d0" "(n div l0) mod l1 = d1" "n div (l0 * l1) = d2" for n
    using digits_compose[OF l(1,2), of n] that unfolding N_def by simp
  show ?thesis unfolding N_def[symmetric] using mem uniq by blast
qed

lemma raw_index_found:
  assumes ranges: "vr_ranges r = [R0, R1, R2]"
    and steps: "r_step R0 \<noteq> 0" "r_step R1 \<noteq> 0" "r_step R2 \<noteq> 0"
    and order: "vr_order r = [c0, c1, c2]"
    and attrs: "getattr v c0 = Inr x0" "getattr v c1 = Inr x1" "getattr v c2 = Inr x2"
    and i0: "range_index R0 x0 = Inr d0"
    and i1: "range_index R1 x1 = Inr d1"
    and i2: "range_index R2 x2 = Inr d2"
    and fit: "range_len R0 * range_len R1 * range_len R2 \<le> maxsize"
  shows "raw_index r v = Inr (d0 + range_len R0 * (d1 + range_len R1 * d2))"
proof -
  let ?l0 = "range_len R0" and ?l1 = "range_len R1" and ?l2 = "range_len R2"
  let ?N = "d0 + ?l0 * (d1 + ?l1 * d2)"
  have d: "0 \<le> d0" "d0 < ?l0" "0 \<le> d1" "d1 < ?l1" "0 \<le> d2" "d2 < ?l2"
    using i0 i1 i2 steps by (simp_all add: range_index_iff)
  then have l: "0 < ?l0" "0 < ?l1" "0 < ?l2" by linarith+
  have prod: "product (map range_len [R0, R1, R2]) = Inr (?l0 * ?l1 * ?l2)" by simp
  have fit0: "?l0 * ?l1 * ?l2 - 0 \<le> maxsize" using fit by simp
  have "1 * (?l1 * ?l2) \<le> ?l0 * (?l1 * ?l2)"
    using l by (intro mult_right_mono) simp_all
  then have fit1: "?l1 * ?l2 - 0 \<le> maxsize" using fit by (simp add: mult.assoc)
  obtain xs where xs: "rmod ?l0 d0 (NumRange (PyRange 0 (?l0 * ?l1 * ?l2) 1)) = Inr xs"
    "distinct xs" "set xs = {n. 0 \<le> n \<and> n < ?l0 * ?l1 * ?l2 \<and> n mod ?l0 = d0}"
    using rmod_unit_step[OF l(1) fit0, of d0] by blast
  have "?l0 * ?l1 * ?l2 div ?l0 = ?l1 * ?l2" using l(1) by (simp add: mult.assoc)
  then have fd: "py_floordiv (?l0 * ?l1 * ?l2) ?l0 = Inr (?l1 * ?l2)"
    using l(1) by (simp add: py_floordiv_def)
  obtain as where as: "rmod ?l1 d1 (NumRange (PyRange 0 (?l1 * ?l2) 1)) = Inr as"
    "set as = {a. 0 \<le> a \<and> a < ?l1 * ?l2 \<and> a mod ?l1 = d1}"
    using rmod_unit_step[OF l(2) fit1, of d1] by blast
  let ?g = "\<lambda>a. range_iter (PyRange (a * ?l0) (a * ?l0 + ?l0) 1)"
  have bs: "collect (map (rdiv ?l0) as) = Inr (map ?g as)"
    by (rule collect_map_Inr) (rule rdiv_exact[OF l(1)])
  have sb: "set (concat (map ?g as)) = {n. 0 \<le> n div ?l0 \<and> n div ?l0 < ?l1 * ?l2
               \<and> (n div ?l0) mod ?l1 = d1}"
    using as(2) by (auto simp: rdiv_range_set[OF l(1)])
  have k0: "0 < ?l0 * ?l1" using l by simp
  have ks: "rdiv (?l0 * ?l1) d2 = Inr (range_iter (PyRange (d2 * (?l0 * ?l1)) (d2 * (?l0 * ?l1) + ?l0 * ?l1) 1))"
    by (rule rdiv_exact[OF k0])
  let ?ks = "range_iter (PyRange (d2 * (?l0 * ?l1)) (d2 * (?l0 * ?l1) + ?l0 * ?l1) 1)"
  have sk: "set ?ks = {n. n div (?l0 * ?l1) = d2}" by (rule rdiv_range_set[OF k0])
  let ?f = "filter (\<lambda>n. n \<in> set (concat (map ?g as)) \<and> n \<in> set ?ks) (remdups xs)"
  have "set ?f = {n. (0 \<le> n \<and> n < ?l0 * ?l1 * ?l2 \<and> n mod ?l0 = d0)
            \<and> (0 \<le> n div ?l0 \<and> n div ?l0 < ?l1 * ?l2 \<and> (n div ?l0) mod ?l1 = d1)
            \<and> n div (?l0 * ?l1) = d2}"
    unfolding set_filter set_remdups xs(3) sb sk by blast
  then have "set ?f = {?N}" unfolding index_candidates[OF d] .
  moreover have "distinct ?f" by simp
  ultimately have f: "?f = [?N]" by (rule singleton_list[rotated])
  show ?thesis
    unfolding raw_index_def order ranges
    by (simp add: attrs i0 i1 i2 xs(1) fd as(1) bs ks f del: set_concat set_filter)
qed

lemma raw_index_missing:
  assumes ranges: "vr_ranges r = [R0, R1, R2]"
    and steps: "r_step R0 \<noteq> 0" "r_step R1 \<noteq> 0" "r_step R2 \<noteq> 0"
    and order: "vr_order r = [c0, c1, c2]"
    and attrs: "getattr v c0 = Inr x0" "getattr v c1 = Inr x1" "getattr v c2 = Inr x2"
    and miss: "range_index R0 x0 = Inl ValueError \<or> range_index R1 x1 = Inl ValueError
               \<or> range_index R2 x2 = Inl ValueError"
    and fit: "range_len R0 * range_len R1 * range_len R2 \<le> maxsize"
  shows "raw_index r v = Inl ValueError"
proof (cases "range_index R0 x0")
  case (Inl e)
  then have "e = ValueError" using range_index_cases[of R0 x0] by auto
  then show ?thesis unfolding raw_index_def order ranges by (simp add: attrs Inl)
next
  case i0: (Inr d0)
  let ?l0 = "range_len R0" and ?l1 = "range_len R1" and ?l2 = "range_len R2"
  have d0: "0 \<le> d0" "d0 < ?l0" using i0 steps by (simp_all add: range_index_iff)
  then have l0: "0 < ?l0" by linarith
  have fit0: "?l0 * ?l1 * ?l2 - 0 \<le> maxsize" using fit by simp
  obtain xs where xs: "rmod ?l0 d0 (NumRange (PyRange 0 (?l0 * ?l1 * ?l2) 1)) = Inr xs"
    using rmod_unit_step[OF l0 fit0, of d0] by blast
  show ?thesis
  proof (cases "range_index R1 x1")
    case (Inl e)
    then have "e = ValueError" using range_index_cases[of R1 x1] by auto
    then show ?thesis unfolding raw_index_def order ranges by (simp add: attrs i0 xs Inl)
  next
    case i1: (Inr d1)
    have d1: "0 \<le> d1" "d1 < ?l1" using i1 steps by (simp_all add: range_index_iff)
    then have l1: "0 < ?l1" by linarith
    have i2: "range_index R2 x2 = Inl ValueError" using miss i0 i1 by simp
    have "?l0 * ?l1 * ?l2 div ?l0 = ?l1 * ?l2" using l0 by (simp add: mult.assoc)
    then have q: "py_floordiv (?l0 * ?l1 * ?l2) ?l0 = Inr (?l1 * ?l2)"
      using l0 by (simp add: py_floordiv_def)
    have "0 \<le> ?l2" using steps(3) by (rule range_len_ge0)
    then have "1 * (?l1 * ?l2) \<le> ?l0 * (?l1 * ?l2)"
      using l0 l1 by (intro mult_right_mono) simp_all
    then have fit1: "?l1 * ?l2 - 0 \<le> maxsize" using fit by (simp add: mult.assoc)
    obtain as where as: "rmod ?l1 d1 (NumRange (PyRange 0 (?l1 * ?l2) 1)) = Inr as"
      using rmod_unit_step[OF l1 fit1, of d1] by blast
    let ?g = "\<lambda>a. range_iter (PyRange (a * ?l0) (a * ?l0 + ?l0) 1)"
    have bs: "collect (map (rdiv ?l0) as) = Inr (map ?g as)"
      by (rule collect_map_Inr) (rule rdiv_exact[OF l0])
    show ?thesis unfolding raw_index_def order ranges
      by (simp add: attrs i0 xs i1 q as bs i2)
  qed
qed

lemma valid_order_cases:
  assumes "valid_order order"
  obtains "order = ''xyz''" | "order = ''xzy''" | "order = ''yxz''"
        | "order = ''yzx''" | "order = ''zxy''" | "order = ''zyx''"
  using assms unfolding valid_order_def by auto

lemma init_invalid_order:
  "\<not> valid_order order \<Longrightarrow> vector_range_init start stop step order w = Inl ValueError"
  by (simp add: vector_range_init_def valid_order_def Let_def)

lemma init_ranges:
  assumes "valid_order order" "nonzero step"
  shows "collect (map (\<lambda>axis.
            and_then (getattr start axis) (\<lambda>a.
            and_then (getattr stop axis) (\<lambda>b.
            and_then (getattr step axis) (\<lambda>c. py_range a b c)))) order)
         = Inr (map (axis_range start stop step) order)"
  using assms(1)
  by (rule valid_order_cases)
     (use assms(2) in \<open>simp_all add: getattr_def py_range_def axis_range_def axis_def nonzero_def\<close>)

lemma init_zero_step:
  assumes "valid_order order" "\<not> nonzero step"
  shows "collect (map (\<lambda>axis.
            and_then (getattr start axis) (\<lambda>a.
            and_then (getattr stop axis) (\<lambda>b.
            and_then (getattr step axis) (\<lambda>c. py_range a b c)))) order)
         = Inl ValueError"
  using assms(1)
  by (rule valid_order_cases)
     (use assms(2) in \<open>auto simp add: getattr_def py_range_def nonzero_def\<close>)

lemma init_indexes:
  assumes "valid_order order"
  shows "collect (map (str_index order) ''xyz'') = Inr (map (axis_pos order) ''xyz'')"
  using assms by (rule valid_order_cases) (simp_all add: axis_pos_def)

subsection \<open>The constructor and the shape of a range\<close>

lemma valid_order_3: "valid_order order \<Longrightarrow> \<exists>c0 c1 c2. order = [c0, c1, c2]"
  by (erule valid_order_cases) simp_all

lemma init_eq:
  assumes "valid_order order" "nonzero step"
  shows "vector_range_init start stop step order w =
     (let u = unwindowed (case stop of None \<Rightarrow> Vector 0 0 0 | Some s \<Rightarrow> start)
                (case stop of None \<Rightarrow> start | Some s \<Rightarrow> s) step order
      in case w of
           None \<Rightarrow> Inr u
         | Some ww \<Rightarrow>
             if 0 < range_len ww
             then and_then (len_range ww) (\<lambda>m.
                  and_then (vr_len u) (\<lambda>n.
                  if m \<le> n then Inr (u \<lparr> vr_slice := Some ww \<rparr>) else Inl AssertionError))
             else Inr (u \<lparr> vr_slice := Some ww \<rparr>))"
proof -
  have v: "order \<in> set [''xyz'', ''xzy'', ''yxz'', ''yzx'', ''zxy'', ''zyx'']"
    using assms(1) by (simp only: valid_order_def)
  let ?s = "case stop of None \<Rightarrow> Vector 0 0 0 | Some s \<Rightarrow> start"
  let ?e = "case stop of None \<Rightarrow> start | Some s \<Rightarrow> s"
  have u: "\<lparr> vr_start = ?s, vr_stop = ?e, vr_step = step, vr_order = order,
             vr_ranges = map (axis_range ?s ?e step) order,
             vr_indexes = map (axis_pos order) ''xyz'', vr_slice = None \<rparr>
           = unwindowed ?s ?e step order"
    by (simp only: unwindowed_def)
  show ?thesis
    unfolding vector_range_init_def Let_def
    apply (simp only: v not_True_eq_False if_False not_not init_ranges[OF assms] init_indexes[OF assms(1)]
        and_then_Inr u)
    apply (cases w)
     apply (simp_all add: unwindowed_def and_then_def split: sum.splits)
    done
qed

lemma init_Inr:
  assumes "vector_range_init start stop step order w = Inr r"
  shows "valid_order order" "nonzero step"
proof -
  show v: "valid_order order" using assms init_invalid_order by fastforce
  show "nonzero step"
  proof (rule ccontr)
    assume "\<not> nonzero step"
    then have "vector_range_init start stop step order w = Inl ValueError"
      using v unfolding vector_range_init_def Let_def
      by (simp add: valid_order_def[symmetric] init_zero_step)
    then show False using assms by simp
  qed
qed

lemma valid_vr_unwindowed:
  "valid_order order \<Longrightarrow> nonzero step \<Longrightarrow> valid_vr ((unwindowed start stop step order) \<lparr> vr_slice := w \<rparr>)"
  by (simp add: valid_vr_def unwindowed_def)

lemma init_valid_vr:
  assumes "vector_range_init start stop step order w = Inr r"
  shows "valid_vr r" "vr_slice r = w" "vr_order r = order" "vr_step r = step"
    "vr_start r = (case stop of None \<Rightarrow> Vector 0 0 0 | Some s \<Rightarrow> start)"
    "vr_stop r = (case stop of None \<Rightarrow> start | Some s \<Rightarrow> s)"
proof -
  note v = init_Inr[OF assms]
  let ?u = "unwindowed (case stop of None \<Rightarrow> Vector 0 0 0 | Some s \<Rightarrow> start)
                (case stop of None \<Rightarrow> start | Some s \<Rightarrow> s) step order"
  have r: "r = ?u \<lparr> vr_slice := w \<rparr>"
    using assms unfolding init_eq[OF v] Let_def
    by (cases w) (auto simp: unwindowed_def and_then_def split: if_splits sum.splits)
  show "valid_vr r" unfolding r by (rule valid_vr_unwindowed[OF v])
  show "vr_slice r = w" "vr_order r = order" "vr_step r = step"
    "vr_start r = (case stop of None \<Rightarrow> Vector 0 0 0 | Some s \<Rightarrow> start)"
    "vr_stop r = (case stop of None \<Rightarrow> start | Some s \<Rightarrow> s)"
    unfolding r by (simp_all add: unwindowed_def)
qed

lemma valid_vr_bundle:
  assumes "valid_vr r"
  obtains c0 c1 c2 R0 R1 R2 p0 p1 p2 where
    "vr_order r = [c0, c1, c2]" "vr_ranges r = [R0, R1, R2]"
    "r_step R0 \<noteq> 0" "r_step R1 \<noteq> 0" "r_step R2 \<noteq> 0"
    "vr_indexes r = [p0, p1, p2]" "p0 \<in> {0, 1, 2}" "p1 \<in> {0, 1, 2}" "p2 \<in> {0, 1, 2}"
    "\<And>v. getattr v c0 = Inr (axis v c0)" "\<And>v. getattr v c1 = Inr (axis v c1)"
    "\<And>v. getattr v c2 = Inr (axis v c2)"
    "\<And>a b c. axis (Vector ([a, b, c] ! nat p0) ([a, b, c] ! nat p1) ([a, b, c] ! nat p2)) c0 = a"
    "\<And>a b c. axis (Vector ([a, b, c] ! nat p0) ([a, b, c] ! nat p1) ([a, b, c] ! nat p2)) c1 = b"
    "\<And>a b c. axis (Vector ([a, b, c] ! nat p0) ([a, b, c] ! nat p1) ([a, b, c] ! nat p2)) c2 = c"
    "\<And>v v'. axis v c0 = axis v' c0 \<Longrightarrow> axis v c1 = axis v' c1 \<Longrightarrow> axis v c2 = axis v' c2
        \<Longrightarrow> v = v'"
    "raw_len r = range_len R0 * range_len R1 * range_len R2"
    "R0 = axis_range (vr_start r) (vr_stop r) (vr_step r) c0"
    "R1 = axis_range (vr_start r) (vr_stop r) (vr_step r) c1"
    "R2 = axis_range (vr_start r) (vr_stop r) (vr_step r) c2"
    "\<And>a b c. Vector ([a, b, c] ! nat p0) ([a, b, c] ! nat p1) ([a, b, c] ! nat p2)
        = place (vr_order r) a b c"
proof -
  let ?R = "axis_range (vr_start r) (vr_stop r) (vr_step r)"
  have vo: "valid_order (vr_order r)" and st: "nonzero (vr_step r)"
    and eq: "r \<lparr> vr_slice := None \<rparr> = unwindowed (vr_start r) (vr_stop r) (vr_step r) (vr_order r)"
    using assms by (simp_all add: valid_vr_def)
  have "vr_ranges (r \<lparr> vr_slice := None \<rparr>) = map ?R (vr_order r)"
    unfolding eq by (simp add: unwindowed_def)
  then have rg: "vr_ranges r = map ?R (vr_order r)" by simp
  have "vr_indexes (r \<lparr> vr_slice := None \<rparr>) = map (axis_pos (vr_order r)) ''xyz''"
    unfolding eq by (simp add: unwindowed_def)
  then have ix: "vr_indexes r = map (axis_pos (vr_order r)) ''xyz''" by simp
  from vo show thesis
  proof (cases rule: valid_order_cases)
  case 1
  show thesis
    by (rule that[of "CHR ''x''" "CHR ''y''" "CHR ''z''" "?R CHR ''x''" "?R CHR ''y''" "?R CHR ''z''"
          0 1 2])
       (use 1 rg ix st in \<open>simp_all add: getattr_def axis_def axis_range_def axis_pos_def
          raw_len_def place_def Let_def nonzero_def Vector.expand\<close>)
next
  case 2
  show thesis
    by (rule that[of "CHR ''x''" "CHR ''z''" "CHR ''y''" "?R CHR ''x''" "?R CHR ''z''" "?R CHR ''y''"
          0 2 1])
       (use 2 rg ix st in \<open>simp_all add: getattr_def axis_def axis_range_def axis_pos_def
          raw_len_def place_def Let_def nonzero_def Vector.expand\<close>)
next
  case 3
  show thesis
    by (rule that[of "CHR ''y''" "CHR ''x''" "CHR ''z''" "?R CHR ''y''" "?R CHR ''x''" "?R CHR ''z''"
          1 0 2])
       (use 3 rg ix st in \<open>simp_all add: getattr_def axis_def axis_range_def axis_pos_def
          raw_len_def place_def Let_def nonzero_def Vector.expand\<close>)
next
  case 4
  show thesis
    by (rule that[of "CHR ''y''" "CHR ''z''" "CHR ''x''" "?R CHR ''y''" "?R CHR ''z''" "?R CHR ''x''"
          2 0 1])
       (use 4 rg ix st in \<open>simp_all add: getattr_def axis_def axis_range_def axis_pos_def
          raw_len_def place_def Let_def nonzero_def Vector.expand\<close>)
next
  case 5
  show thesis
    by (rule that[of "CHR ''z''" "CHR ''x''" "CHR ''y''" "?R CHR ''z''" "?R CHR ''x''" "?R CHR ''y''"
          1 2 0])
       (use 5 rg ix st in \<open>simp_all add: getattr_def axis_def axis_range_def axis_pos_def
          raw_len_def place_def Let_def nonzero_def Vector.expand\<close>)
next
  case 6
  show thesis
    by (rule that[of "CHR ''z''" "CHR ''y''" "CHR ''x''" "?R CHR ''z''" "?R CHR ''y''" "?R CHR ''x''"
          2 1 0])
       (use 6 rg ix st in \<open>simp_all add: getattr_def axis_def axis_range_def axis_pos_def
          raw_len_def place_def Let_def nonzero_def Vector.expand\<close>)
  qed
qed

lemma raw_getitem_spec:
  assumes "valid_vr r" "0 \<le> n" "n < raw_len r"
  shows "raw_getitem r n =
         Inr (spec_getitem (vr_start r) (vr_stop r) (vr_step r) (vr_order r) n)"
proof (rule valid_vr_bundle[OF assms(1)])
  fix c0 c1 c2 R0 R1 R2 p0 p1 p2
  assume b:
    "vr_order r = [c0, c1, c2]" "vr_ranges r = [R0, R1, R2]"
    "r_step R0 \<noteq> 0" "r_step R1 \<noteq> 0" "r_step R2 \<noteq> 0"
    "vr_indexes r = [p0, p1, p2]" "p0 \<in> {0, 1, 2}" "p1 \<in> {0, 1, 2}" "p2 \<in> {0, 1, 2}"
    "\<And>v. getattr v c0 = Inr (axis v c0)" "\<And>v. getattr v c1 = Inr (axis v c1)"
    "\<And>v. getattr v c2 = Inr (axis v c2)"
    "\<And>a b c. axis (Vector ([a, b, c] ! nat p0) ([a, b, c] ! nat p1) ([a, b, c] ! nat p2)) c0 = a"
    "\<And>a b c. axis (Vector ([a, b, c] ! nat p0) ([a, b, c] ! nat p1) ([a, b, c] ! nat p2)) c1 = b"
    "\<And>a b c. axis (Vector ([a, b, c] ! nat p0) ([a, b, c] ! nat p1) ([a, b, c] ! nat p2)) c2 = c"
    "\<And>v v'. axis v c0 = axis v' c0 \<Longrightarrow> axis v c1 = axis v' c1 \<Longrightarrow> axis v c2 = axis v' c2
        \<Longrightarrow> v = v'"
    "raw_len r = range_len R0 * range_len R1 * range_len R2"
    "R0 = axis_range (vr_start r) (vr_stop r) (vr_step r) c0"
    "R1 = axis_range (vr_start r) (vr_stop r) (vr_step r) c1"
    "R2 = axis_range (vr_start r) (vr_stop r) (vr_step r) c2"
    "\<And>a b c. Vector ([a, b, c] ! nat p0) ([a, b, c] ! nat p1) ([a, b, c] ! nat p2)
        = place (vr_order r) a b c"
  have n: "n < range_len R0 * range_len R1 * range_len R2" using assms(3) b(17) by simp
  show ?thesis
    unfolding raw_getitem_in[OF b(2) b(3) b(4) b(5) b(6) b(7) b(8) b(9) assms(2) n]
    unfolding Let_def b(21) spec_getitem_def
    unfolding b(1) b(18) b(19) b(20) by simp
qed

lemma raw_index_getitem:
  assumes "valid_vr r" "0 \<le> n" "n < raw_len r" "raw_getitem r n = Inr v"
    and "raw_len r \<le> maxsize"
  shows "raw_index r v = Inr n"
proof (rule valid_vr_bundle[OF assms(1)])
  fix c0 c1 c2 R0 R1 R2 p0 p1 p2
  assume b:
    "vr_order r = [c0, c1, c2]" "vr_ranges r = [R0, R1, R2]"
    "r_step R0 \<noteq> 0" "r_step R1 \<noteq> 0" "r_step R2 \<noteq> 0"
    "vr_indexes r = [p0, p1, p2]" "p0 \<in> {0, 1, 2}" "p1 \<in> {0, 1, 2}" "p2 \<in> {0, 1, 2}"
    "\<And>v. getattr v c0 = Inr (axis v c0)" "\<And>v. getattr v c1 = Inr (axis v c1)"
    "\<And>v. getattr v c2 = Inr (axis v c2)"
    "\<And>a b c. axis (Vector ([a, b, c] ! nat p0) ([a, b, c] ! nat p1) ([a, b, c] ! nat p2)) c0 = a"
    "\<And>a b c. axis (Vector ([a, b, c] ! nat p0) ([a, b, c] ! nat p1) ([a, b, c] ! nat p2)) c1 = b"
    "\<And>a b c. axis (Vector ([a, b, c] ! nat p0) ([a, b, c] ! nat p1) ([a, b, c] ! nat p2)) c2 = c"
    "\<And>v v'. axis v c0 = axis v' c0 \<Longrightarrow> axis v c1 = axis v' c1 \<Longrightarrow> axis v c2 = axis v' c2
        \<Longrightarrow> v = v'"
    "raw_len r = range_len R0 * range_len R1 * range_len R2"
    "R0 = axis_range (vr_start r) (vr_stop r) (vr_step r) c0"
    "R1 = axis_range (vr_start r) (vr_stop r) (vr_step r) c1"
    "R2 = axis_range (vr_start r) (vr_stop r) (vr_step r) c2"
    "\<And>a b c. Vector ([a, b, c] ! nat p0) ([a, b, c] ! nat p1) ([a, b, c] ! nat p2)
        = place (vr_order r) a b c"
  let ?l0 = "range_len R0" and ?l1 = "range_len R1" and ?l2 = "range_len R2"
  let ?d0 = "n mod ?l0" and ?d1 = "(n div ?l0) mod ?l1" and ?d2 = "n div (?l0 * ?l1)"
  have n: "n < ?l0 * ?l1 * ?l2" using assms(3) b(17) by simp
  have fit: "?l0 * ?l1 * ?l2 \<le> maxsize" using assms(5) b(17) by simp
  note d = digits_bounds[OF assms(2) n range_len_ge0[OF b(3)] range_len_ge0[OF b(4)]
      range_len_ge0[OF b(5)]]
  have v: "v = Vector ([progression R0 ?d0, progression R1 ?d1, progression R2 ?d2] ! nat p0)
                      ([progression R0 ?d0, progression R1 ?d1, progression R2 ?d2] ! nat p1)
                      ([progression R0 ?d0, progression R1 ?d1, progression R2 ?d2] ! nat p2)"
    using assms(4)
    unfolding raw_getitem_in[OF b(2) b(3) b(4) b(5) b(6) b(7) b(8) b(9) assms(2) n] Let_def
    by simp
  have a0: "axis v c0 = progression R0 ?d0" unfolding v by (rule b(13))
  have a1: "axis v c1 = progression R1 ?d1" unfolding v by (rule b(14))
  have a2: "axis v c2 = progression R2 ?d2" unfolding v by (rule b(15))
  have i0: "range_index R0 (axis v c0) = Inr ?d0"
    unfolding range_index_iff[OF b(3)] a0 using d(4,5) by simp
  have i1: "range_index R1 (axis v c1) = Inr ?d1"
    unfolding range_index_iff[OF b(4)] a1 using d(6,7) by simp
  have i2: "range_index R2 (axis v c2) = Inr ?d2"
    unfolding range_index_iff[OF b(5)] a2 using d(8,9) by simp
  have "raw_index r v = Inr (?d0 + ?l0 * (?d1 + ?l1 * ?d2))"
    by (rule raw_index_found[OF b(2) b(3) b(4) b(5) b(1) b(10) b(11) b(12) i0 i1 i2 fit])
  then show ?thesis unfolding digits_compose[OF d(1) d(2)] .
qed

lemma raw_index_result:
  assumes "valid_vr r" "raw_len r \<le> maxsize"
  shows "raw_index r v = Inl ValueError
       \<or> (\<exists>n. raw_index r v = Inr n \<and> 0 \<le> n \<and> n < raw_len r \<and> raw_getitem r n = Inr v)"
proof (rule valid_vr_bundle[OF assms(1)])
  fix c0 c1 c2 R0 R1 R2 p0 p1 p2
  assume b:
    "vr_order r = [c0, c1, c2]" "vr_ranges r = [R0, R1, R2]"
    "r_step R0 \<noteq> 0" "r_step R1 \<noteq> 0" "r_step R2 \<noteq> 0"
    "vr_indexes r = [p0, p1, p2]" "p0 \<in> {0, 1, 2}" "p1 \<in> {0, 1, 2}" "p2 \<in> {0, 1, 2}"
    "\<And>v. getattr v c0 = Inr (axis v c0)" "\<And>v. getattr v c1 = Inr (axis v c1)"
    "\<And>v. getattr v c2 = Inr (axis v c2)"
    "\<And>a b c. axis (Vector ([a, b, c] ! nat p0) ([a, b, c] ! nat p1) ([a, b, c] ! nat p2)) c0 = a"
    "\<And>a b c. axis (Vector ([a, b, c] ! nat p0) ([a, b, c] ! nat p1) ([a, b, c] ! nat p2)) c1 = b"
    "\<And>a b c. axis (Vector ([a, b, c] ! nat p0) ([a, b, c] ! nat p1) ([a, b, c] ! nat p2)) c2 = c"
    "\<And>v v'. axis v c0 = axis v' c0 \<Longrightarrow> axis v c1 = axis v' c1 \<Longrightarrow> axis v c2 = axis v' c2
        \<Longrightarrow> v = v'"
    "raw_len r = range_len R0 * range_len R1 * range_len R2"
    "R0 = axis_range (vr_start r) (vr_stop r) (vr_step r) c0"
    "R1 = axis_range (vr_start r) (vr_stop r) (vr_step r) c1"
    "R2 = axis_range (vr_start r) (vr_stop r) (vr_step r) c2"
    "\<And>a b c. Vector ([a, b, c] ! nat p0) ([a, b, c] ! nat p1) ([a, b, c] ! nat p2)
        = place (vr_order r) a b c"
  let ?l0 = "range_len R0" and ?l1 = "range_len R1" and ?l2 = "range_len R2"
  have fit: "?l0 * ?l1 * ?l2 \<le> maxsize" using assms(2) b(17) by simp
  show ?thesis
  proof (cases "\<exists>d0 d1 d2. range_index R0 (axis v c0) = Inr d0
      \<and> range_index R1 (axis v c1) = Inr d1 \<and> range_index R2 (axis v c2) = Inr d2")
    case False
    then have "range_index R0 (axis v c0) = Inl ValueError
        \<or> range_index R1 (axis v c1) = Inl ValueError
        \<or> range_index R2 (axis v c2) = Inl ValueError"
      using range_index_cases[of R0 "axis v c0"] range_index_cases[of R1 "axis v c1"]
        range_index_cases[of R2 "axis v c2"] by blast
    then have "raw_index r v = Inl ValueError"
      by (rule raw_index_missing[OF b(2) b(3) b(4) b(5) b(1) b(10) b(11) b(12) _ fit])
    then show ?thesis by simp
  next
    case True
    then obtain d0 d1 d2 where i: "range_index R0 (axis v c0) = Inr d0"
      "range_index R1 (axis v c1) = Inr d1" "range_index R2 (axis v c2) = Inr d2" by blast
    define N where "N = d0 + ?l0 * (d1 + ?l1 * d2)"
    have d: "0 \<le> d0" "d0 < ?l0" "0 \<le> d1" "d1 < ?l1" "0 \<le> d2" "d2 < ?l2"
      and x: "axis v c0 = progression R0 d0" "axis v c1 = progression R1 d1"
        "axis v c2 = progression R2 d2"
      using i b(3,4,5) by (simp_all add: range_index_iff)
    have ri: "raw_index r v = Inr N" unfolding N_def
      by (rule raw_index_found[OF b(2) b(3) b(4) b(5) b(1) b(10) b(11) b(12) i fit])
    have "N \<in> {d0 + ?l0 * (d1 + ?l1 * d2)}" by (simp add: N_def)
    then have "N \<in> {n. (0 \<le> n \<and> n < ?l0 * ?l1 * ?l2 \<and> n mod ?l0 = d0)
            \<and> (0 \<le> n div ?l0 \<and> n div ?l0 < ?l1 * ?l2 \<and> (n div ?l0) mod ?l1 = d1)
            \<and> n div (?l0 * ?l1) = d2}"
      unfolding index_candidates[OF d] .
    then have N: "0 \<le> N" "N < ?l0 * ?l1 * ?l2" "N mod ?l0 = d0" "(N div ?l0) mod ?l1 = d1"
      "N div (?l0 * ?l1) = d2" by simp_all
    define w where "w = Vector ([progression R0 d0, progression R1 d1, progression R2 d2] ! nat p0)
                      ([progression R0 d0, progression R1 d1, progression R2 d2] ! nat p1)
                      ([progression R0 d0, progression R1 d1, progression R2 d2] ! nat p2)"
    have g: "raw_getitem r N = Inr w"
      unfolding raw_getitem_in[OF b(2) b(3) b(4) b(5) b(6) b(7) b(8) b(9) N(1) N(2)] Let_def
        N(3) N(4) N(5) w_def by (rule refl)
    have "axis w c0 = axis v c0" "axis w c1 = axis v c1" "axis w c2 = axis v c2"
      unfolding x w_def by (rule b(13) b(14) b(15))+
    then have "w = v" by (rule b(16))
    then show ?thesis using ri g N(1) N(2) b(17) by simp
  qed
qed

lemma raw_getitem_bound:
  assumes "valid_vr r" "0 \<le> n" "raw_getitem r n = Inr v"
  shows "n < raw_len r"
proof (rule valid_vr_bundle[OF assms(1)])
  fix c0 c1 c2 R0 R1 R2 p0 p1 p2
  assume b:
    "vr_order r = [c0, c1, c2]" "vr_ranges r = [R0, R1, R2]"
    "r_step R0 \<noteq> 0" "r_step R1 \<noteq> 0" "r_step R2 \<noteq> 0"
    "vr_indexes r = [p0, p1, p2]" "p0 \<in> {0, 1, 2}" "p1 \<in> {0, 1, 2}" "p2 \<in> {0, 1, 2}"
    "\<And>v. getattr v c0 = Inr (axis v c0)" "\<And>v. getattr v c1 = Inr (axis v c1)"
    "\<And>v. getattr v c2 = Inr (axis v c2)"
    "\<And>a b c. axis (Vector ([a, b, c] ! nat p0) ([a, b, c] ! nat p1) ([a, b, c] ! nat p2)) c0 = a"
    "\<And>a b c. axis (Vector ([a, b, c] ! nat p0) ([a, b, c] ! nat p1) ([a, b, c] ! nat p2)) c1 = b"
    "\<And>a b c. axis (Vector ([a, b, c] ! nat p0) ([a, b, c] ! nat p1) ([a, b, c] ! nat p2)) c2 = c"
    "\<And>v v'. axis v c0 = axis v' c0 \<Longrightarrow> axis v c1 = axis v' c1 \<Longrightarrow> axis v c2 = axis v' c2
        \<Longrightarrow> v = v'"
    "raw_len r = range_len R0 * range_len R1 * range_len R2"
    "R0 = axis_range (vr_start r) (vr_stop r) (vr_step r) c0"
    "R1 = axis_range (vr_start r) (vr_stop r) (vr_step r) c1"
    "R2 = axis_range (vr_start r) (vr_stop r) (vr_step r) c2"
    "\<And>a b c. Vector ([a, b, c] ! nat p0) ([a, b, c] ! nat p1) ([a, b, c] ! nat p2)
        = place (vr_order r) a b c"
  show ?thesis unfolding b(17) by (rule raw_getitem_Inr[OF b(2) b(3) b(4) b(5) assms(2) assms(3)])
qed

lemma raw_len_nonneg:
  assumes "valid_vr r" shows "0 \<le> raw_len r"
proof (rule valid_vr_bundle[OF assms(1)])
  fix c0 c1 c2 R0 R1 R2 p0 p1 p2
  assume b:
    "vr_order r = [c0, c1, c2]" "vr_ranges r = [R0, R1, R2]"
    "r_step R0 \<noteq> 0" "r_step R1 \<noteq> 0" "r_step R2 \<noteq> 0"
    "vr_indexes r = [p0, p1, p2]" "p0 \<in> {0, 1, 2}" "p1 \<in> {0, 1, 2}" "p2 \<in> {0, 1, 2}"
    "\<And>v. getattr v c0 = Inr (axis v c0)" "\<And>v. getattr v c1 = Inr (axis v c1)"
    "\<And>v. getattr v c2 = Inr (axis v c2)"
    "\<And>a b c. axis (Vector ([a, b, c] ! nat p0) ([a, b, c] ! nat p1) ([a, b, c] ! nat p2)) c0 = a"
    "\<And>a b c. axis (Vector ([a, b, c] ! nat p0) ([a, b, c] ! nat p1) ([a, b, c] ! nat p2)) c1 = b"
    "\<And>a b c. axis (Vector ([a, b, c] ! nat p0) ([a, b, c] ! nat p1) ([a, b, c] ! nat p2)) c2 = c"
    "\<And>v v'. axis v c0 = axis v' c0 \<Longrightarrow> axis v c1 = axis v' c1 \<Longrightarrow> axis v c2 = axis v' c2
        \<Longrightarrow> v = v'"
    "raw_len r = range_len R0 * range_len R1 * range_len R2"
    "R0 = axis_range (vr_start r) (vr_stop r) (vr_step r) c0"
    "R1 = axis_range (vr_start r) (vr_stop r) (vr_step r) c1"
    "R2 = axis_range (vr_start r) (vr_stop r) (vr_step r) c2"
    "\<And>a b c. Vector ([a, b, c] ! nat p0) ([a, b, c] ! nat p1) ([a, b, c] ! nat p2)
        = place (vr_order r) a b c"
  show ?thesis unfolding b(17)
    using range_len_ge0[OF b(3)] range_len_ge0[OF b(4)] range_len_ge0[OF b(5)] by simp
qed

subsection \<open>Indexing through a window\<close>

lemma window_step:
  "window_ok r \<Longrightarrow> vr_slice r = Some w \<Longrightarrow> r_step w \<noteq> 0"
  by (simp add: window_ok_def)

lemma vr_len_bounds:
  assumes "vr_len r = Inr n"
  shows "0 \<le> n" "n \<le> maxsize"
  using assms by (auto simp: vr_len_def and_then_def py_len_Inr_iff split: sum.splits)

lemma vr_len_valid:
  assumes "valid_vr r" "window_ok r" "fits r"
  shows "vr_len r = Inr (case vr_slice r of None \<Rightarrow> raw_len r | Some w \<Rightarrow> range_len w)"
proof (rule valid_vr_bundle[OF assms(1)])
  fix c0 c1 c2 R0 R1 R2 p0 p1 p2
  assume b: "vr_ranges r = [R0, R1, R2]"
    "r_step R0 \<noteq> 0" "r_step R1 \<noteq> 0" "r_step R2 \<noteq> 0"
    "raw_len r = range_len R0 * range_len R1 * range_len R2"
  have f: "range_len R0 \<le> maxsize" "range_len R1 \<le> maxsize" "range_len R2 \<le> maxsize"
    "raw_len r \<le> maxsize"
    using assms(3) b(1) by (simp_all add: fits_def)
  show ?thesis
  proof (cases "vr_slice r")
    case None
    have "0 \<le> raw_len r" by (rule raw_len_nonneg[OF assms(1)])
    then have "py_len (range_len R0 * range_len R1 * range_len R2) = Inr (raw_len r)"
      using f(4) b(5) by (simp add: py_len_Inr)
    then show ?thesis
      using None b f by (simp add: vr_len_def vr_dunder_len_def len_range_Inr)
  next
    case (Some w)
    have s: "r_step w \<noteq> 0" by (rule window_step[OF assms(2) Some])
    have "range_len w \<le> maxsize" using assms(3) Some by (simp add: fits_def)
    then have "len_range w = Inr (range_len w)" using s by (rule len_range_Inr[rotated])
    moreover have "py_len (range_len w) = Inr (range_len w)"
      using \<open>range_len w \<le> maxsize\<close> range_len_ge0[OF s] by (simp add: py_len_Inr)
    ultimately show ?thesis using Some by (simp add: vr_len_def vr_dunder_len_def)
  qed
qed

lemma vr_len_fits:
  assumes "valid_vr r" "vr_slice r = None" "vr_len r = Inr n"
  shows "fits r" "n = raw_len r"
proof -
  have "fits r \<and> n = raw_len r"
  proof (rule valid_vr_bundle[OF assms(1)])
    fix c0 c1 c2 R0 R1 R2 p0 p1 p2
    assume b: "vr_ranges r = [R0, R1, R2]"
      "r_step R0 \<noteq> 0" "r_step R1 \<noteq> 0" "r_step R2 \<noteq> 0"
      "raw_len r = range_len R0 * range_len R1 * range_len R2"
    from assms(3) obtain m where m:
      "and_then (collect [len_range R0, len_range R1, len_range R2]) product = Inr m"
      "py_len m = Inr n"
      unfolding vr_len_def vr_dunder_len_def assms(2) b(1)
      by (cases "and_then (collect [len_range R0, len_range R1, len_range R2]) product")
         simp_all
    from m(1) obtain l0 l1 l2 where l: "len_range R0 = Inr l0" "len_range R1 = Inr l1"
      "len_range R2 = Inr l2" "m = l0 * l1 * l2"
      by (cases "len_range R0"; cases "len_range R1"; cases "len_range R2") auto
    have e: "range_len R0 \<le> maxsize" "l0 = range_len R0" "range_len R1 \<le> maxsize"
      "l1 = range_len R1" "range_len R2 \<le> maxsize" "l2 = range_len R2"
      using l(1,2,3) b(2,3,4) by (simp_all add: len_range_Inr_iff)
    have "m \<le> maxsize" "n = m" using m(2) by (simp_all add: py_len_Inr_iff)
    then show ?thesis using e l(4) b(1,5) assms(2) by (simp add: fits_def)
  qed
  then show "fits r" "n = raw_len r" by simp_all
qed

lemma vr_getitem_unfold_valid:
  assumes "valid_vr r" "fits r"
  shows "vr_getitem r index =
     and_then (vr_len r) (\<lambda>n.
     let index = (if index < 0 then index + n else index) in
     if \<not> (0 \<le> index \<and> index < n) then Inl IndexError
     else and_then (case vr_slice r of None \<Rightarrow> Inr index | Some w \<Rightarrow> range_getitem w index)
            (raw_getitem r))"
proof (rule valid_vr_bundle[OF assms(1)])
  fix c0 c1 c2 R0 R1 R2 p0 p1 p2
  assume b: "vr_ranges r = [R0, R1, R2]"
    "r_step R0 \<noteq> 0" "r_step R1 \<noteq> 0" "r_step R2 \<noteq> 0"
  have f: "range_len R0 \<le> maxsize" "range_len R1 \<le> maxsize"
    using assms(2) b(1) by (simp_all add: fits_def)
  show ?thesis by (rule vr_getitem_unfold[OF b(1) b(2) b(3) f])
qed

lemma vr_index_unfold_valid:
  assumes "valid_vr r" "fits r"
  shows "vr_index r val =
     and_then (raw_index r val)
       (\<lambda>result. case vr_slice r of None \<Rightarrow> Inr result | Some w \<Rightarrow> range_index w result)"
proof (rule valid_vr_bundle[OF assms(1)])
  fix c0 c1 c2 R0 R1 R2 p0 p1 p2
  assume b: "vr_ranges r = [R0, R1, R2]"
    "r_step R0 \<noteq> 0" "r_step R1 \<noteq> 0" "r_step R2 \<noteq> 0"
  have f: "range_len R0 \<le> maxsize" "range_len R1 \<le> maxsize" "range_len R2 \<le> maxsize"
    using assms(2) b(1) by (simp_all add: fits_def)
  show ?thesis by (rule vr_index_unfold[OF b f])
qed

lemma fits_raw: "fits r \<Longrightarrow> raw_len r \<le> maxsize"
  by (simp add: fits_def)

lemma progression_window_nonneg:
  assumes "r_step w \<noteq> 0" "0 \<le> r_start w" "0 \<le> progression w (range_len w - 1)"
    "0 \<le> i" "i < range_len w"
  shows "0 \<le> progression w i"
proof (cases "0 < r_step w")
  case True
  then have "0 \<le> i * r_step w" using assms(4) by simp
  then show ?thesis using assms(2) by (simp add: progression_def)
next
  case False
  then have s: "r_step w < 0" using assms(1) by simp
  have "i \<le> range_len w - 1" using assms(5) by simp
  then have "(range_len w - 1) * r_step w \<le> i * r_step w"
    using s by (simp add: mult_right_mono_neg)
  then show ?thesis using assms(3) by (simp add: progression_def)
qed

lemma window_raw_nonneg:
  assumes "window_ok r" "0 \<le> i"
    "i < (case vr_slice r of None \<Rightarrow> raw_len r | Some w \<Rightarrow> range_len w)"
  shows "0 \<le> (case vr_slice r of None \<Rightarrow> i | Some w \<Rightarrow> progression w i)"
proof (cases "vr_slice r")
  case None
  then show ?thesis using assms(2) by simp
next
  case (Some w)
  have i: "i < range_len w" using assms(3) Some by simp
  then have "range_len w \<noteq> 0" using assms(2) by simp
  then have "r_step w \<noteq> 0" "0 \<le> r_start w" "0 \<le> progression w (range_len w - 1)"
    using assms(1) Some by (simp_all add: window_ok_def)
  then show ?thesis using Some progression_window_nonneg[OF _ _ _ assms(2) i] by simp
qed

lemma vr_getitem_eq:
  assumes "valid_vr r" "window_ok r" "fits r" "vr_len r = Inr n" "0 \<le> i" "i < n"
  shows "vr_getitem r i = raw_getitem r (case vr_slice r of None \<Rightarrow> i | Some w \<Rightarrow> progression w i)"
proof (cases "vr_slice r")
  case None
  then show ?thesis unfolding vr_getitem_unfold_valid[OF assms(1,3)] using assms(4,5,6)
    by (simp add: Let_def)
next
  case (Some w)
  have "n = range_len w" using assms(4) vr_len_valid[OF assms(1,2,3)] Some by simp
  then have "range_getitem w i = Inr (progression w i)"
    using assms(5,6) by (simp add: range_getitem_prog)
  then show ?thesis unfolding vr_getitem_unfold_valid[OF assms(1,3)] using assms(4,5,6) Some
    by (simp add: Let_def)
qed

lemma index_of_item:
  assumes v: "valid_vr r" and w: "window_ok r" and f: "fits r" and n: "vr_len r = Inr n"
    and i: "0 \<le> i" "i < n" and g: "vr_getitem r i = Inr v"
  shows "vr_index r v = Inr i"
proof -
  let ?raw = "case vr_slice r of None \<Rightarrow> i | Some w \<Rightarrow> progression w i"
  have n': "n = (case vr_slice r of None \<Rightarrow> raw_len r | Some w \<Rightarrow> range_len w)"
    using n vr_len_valid[OF v w f] by simp
  have rg: "raw_getitem r ?raw = Inr v" using g vr_getitem_eq[OF v w f n i] by simp
  have r0: "0 \<le> ?raw" using window_raw_nonneg[OF w i(1)] i(2) n' by simp
  have r1: "?raw < raw_len r" by (rule raw_getitem_bound[OF v r0 rg])
  have ri: "raw_index r v = Inr ?raw"
    by (rule raw_index_getitem[OF v r0 r1 rg fits_raw[OF f]])
  show ?thesis
  proof (cases "vr_slice r")
    case None
    then show ?thesis unfolding vr_index_unfold_valid[OF v f] ri by simp
  next
    case (Some ww)
    have "range_len ww \<noteq> 0" using i n' Some by simp
    then have "r_step ww \<noteq> 0" using w Some by (simp add: window_ok_def)
    then have "range_index ww (progression ww i) = Inr i"
      using i n' Some by (simp add: range_index_iff)
    then show ?thesis unfolding vr_index_unfold_valid[OF v f] ri using Some by simp
  qed
qed

lemma item_of_index:
  assumes v: "valid_vr r" and w: "window_ok r" and f: "fits r" and n: "vr_len r = Inr n"
    and x: "vr_index r v = Inr i"
  shows "0 \<le> i \<and> i < n \<and> vr_getitem r i = Inr v"
proof -
  have n': "n = (case vr_slice r of None \<Rightarrow> raw_len r | Some w \<Rightarrow> range_len w)"
    using n vr_len_valid[OF v w f] by simp
  from raw_index_result[OF v fits_raw[OF f], of v] x obtain raw where raw:
    "raw_index r v = Inr raw" "0 \<le> raw" "raw < raw_len r" "raw_getitem r raw = Inr v"
    unfolding vr_index_unfold_valid[OF v f] by auto
  show ?thesis
  proof (cases "vr_slice r")
    case None
    then have "i = raw" using x raw(1) unfolding vr_index_unfold_valid[OF v f] by simp
    then show ?thesis using raw n' None vr_getitem_eq[OF v w f n, of i] by simp
  next
    case (Some ww)
    have "range_index ww raw = Inr i"
      using x raw(1) Some unfolding vr_index_unfold_valid[OF v f] by simp
    then have i: "0 \<le> i" "i < range_len ww" "raw = progression ww i"
      using window_step[OF w Some] by (simp_all add: range_index_iff)
    then show ?thesis using raw n' Some vr_getitem_eq[OF v w f n, of i] by simp
  qed
qed

lemma index_error:
  assumes v: "valid_vr r" and f: "fits r" and x: "vr_index r v = Inl e"
  shows "e = ValueError"
proof (cases "raw_index r v")
  case (Inl e')
  then have "e' = ValueError" using raw_index_result[OF v fits_raw[OF f], of v] by auto
  then show ?thesis using x Inl unfolding vr_index_unfold_valid[OF v f] by simp
next
  case (Inr raw)
  show ?thesis
  proof (cases "vr_slice r")
    case None
    then show ?thesis using x Inr unfolding vr_index_unfold_valid[OF v f] by simp
  next
    case (Some ww)
    then have "range_index ww raw = Inl e"
      using x Inr unfolding vr_index_unfold_valid[OF v f] by simp
    then show ?thesis using range_index_cases[of ww raw] by auto
  qed
qed

subsection \<open>Invariants of the ranges a caller can hold\<close>

lemma vr_len_nonneg:
  assumes "valid_vr r" "window_ok r" "vr_len r = Inr n"
  shows "0 \<le> n"
  using assms(3) by (rule vr_len_bounds(1))

lemma init_window_fits:
  assumes "vector_range_init start stop step order (Some ww) = Inr r" "r_step ww \<noteq> 0"
  shows "range_len ww \<le> maxsize"
proof (cases "0 < range_len ww")
  case True
  then obtain m where "len_range ww = Inr m"
    using assms(1) unfolding init_eq[OF init_Inr[OF assms(1)]] Let_def
    by (cases "len_range ww") simp_all
  then show ?thesis using assms(2) by (simp add: len_range_Inr_iff)
next
  case False
  then show ?thesis using maxsize_pos by simp
qed

lemma fits_same_ranges:
  assumes "fits r" "vr_ranges r' = vr_ranges r" "vr_slice r' = Some ww" "range_len ww \<le> maxsize"
  shows "fits r'"
  using assms by (simp add: fits_def raw_len_def)

lemma valid_vr_ranges:
  assumes "valid_vr r" "valid_vr r'" "vr_start r' = vr_start r" "vr_stop r' = vr_stop r"
    "vr_step r' = vr_step r" "vr_order r' = vr_order r"
  shows "vr_ranges r' = vr_ranges r"
proof -
  have "r \<lparr> vr_slice := None \<rparr> = r' \<lparr> vr_slice := None \<rparr>"
    using assms by (simp add: valid_vr_def)
  then have "vr_ranges (r \<lparr> vr_slice := None \<rparr>) = vr_ranges (r' \<lparr> vr_slice := None \<rparr>)"
    by simp
  then show ?thesis by simp
qed

lemma slice_window_nonneg:
  fixes n step start stop :: int
  assumes n: "0 \<le> n" and s: "step \<noteq> 0"
    and a: "if step < 0 then start \<le> n else 0 \<le> start"
    and b: "if step < 0 then - 1 \<le> stop else True"
  shows "range_len (PyRange start stop step) = 0
       \<or> (0 \<le> start \<and> 0 \<le> progression (PyRange start stop step) (range_len (PyRange start stop step) - 1))"
proof (cases "range_len (PyRange start stop step) = 0")
  case True
  then show ?thesis by simp
next
  case False
  let ?w = "PyRange start stop step"
  have l: "0 < range_len ?w" using False range_len_nonneg[OF s, of start stop] by simp
  define i where "i = range_len ?w - 1"
  have i: "0 \<le> i" "i < range_len ?w" using l by (simp_all add: i_def)
  show ?thesis
  proof (cases "step < 0")
    case True
    have "stop < start + i * step" using range_len_neg_step[OF True i(1), of start stop] i(2) by simp
    then have e: "0 \<le> start + i * step" using b True by simp
    have "i * step \<le> 0" using i(1) True by (simp add: mult_nonneg_nonpos)
    then have "0 \<le> start" using e by simp
    then show ?thesis using e by (simp add: progression_def i_def)
  next
    case False
    then have "0 < step" using s by simp
    then have "0 \<le> i * step" using i(1) by simp
    moreover have "0 \<le> start" using a False by simp
    ultimately show ?thesis by (simp add: progression_def i_def)
  qed
qed

lemma getslice_len:
  assumes "vr_getslice r sl = Inr r'"
  shows "\<exists>n. vr_len r = Inr n"
  using assms unfolding vr_getslice_def Let_def by (cases "vr_len r") simp_all

lemma getslice_inv:
  assumes v: "valid_vr r" and w: "window_ok r" and f: "vr_slice r \<noteq> None \<longrightarrow> fits r"
    and g: "vr_getslice r sl = Inr r'"
  shows "valid_vr r' \<and> window_ok r' \<and> fits r' \<and> fits r"
proof -
  obtain n where n: "vr_len r = Inr n" using getslice_len[OF g] by blast
  have fr: "fits r" using f vr_len_fits(1)[OF v _ n] by blast
  have n0: "0 \<le> n" by (rule vr_len_nonneg[OF v w n])
  define step where "step = (case sl_step sl of None \<Rightarrow> 1 | Some s \<Rightarrow> s)"
  define start where "start =
            (if step < 0
             then min n (case sl_start sl of
                           None \<Rightarrow> n - 1
                         | Some s \<Rightarrow> if s < 0 then max 0 (s + n) else s)
             else min n (max 0 (case sl_start sl of
                                  None \<Rightarrow> 0
                                | Some s \<Rightarrow> if s < 0 then s + n else s)))"
  define stop where "stop =
            (if step < 0
             then min n (case sl_stop sl of
                           None \<Rightarrow> - 1
                         | Some s \<Rightarrow> if s < 0 then max 0 (s + n) else s)
             else min n (max 0 (case sl_stop sl of
                                  None \<Rightarrow> n
                                | Some s \<Rightarrow> if s < 0 then s + n else s)))"
  have g': "and_then (py_range start stop step) (\<lambda>w.
      vector_range_init (vr_start r) (Some (vr_stop r)) (vr_step r) (vr_order r) (Some w)) = Inr r'"
    using g unfolding vr_getslice_def n Let_def step_def[symmetric] and_then_Inr
      start_def[symmetric] stop_def[symmetric] .
  have s: "step \<noteq> 0" using g' by (auto simp: py_range_def)
  then have i: "vector_range_init (vr_start r) (Some (vr_stop r)) (vr_step r) (vr_order r)
      (Some (PyRange start stop step)) = Inr r'"
    using g' by (simp add: py_range_def)
  have a: "if step < 0 then start \<le> n else 0 \<le> start"
    using n0 by (simp add: start_def)
  have b: "if step < 0 then - 1 \<le> stop else True"
    using n0 by (auto simp: stop_def split: option.splits)
  have wo: "window_ok r'"
    unfolding window_ok_def init_valid_vr(2)[OF i]
    using s slice_window_nonneg[OF n0 s a b] by simp
  have v': "valid_vr r'" by (rule init_valid_vr(1)[OF i])
  have "vr_ranges r' = vr_ranges r"
    using init_valid_vr(3,4,5,6)[OF i] by (intro valid_vr_ranges[OF v v']) simp_all
  moreover have "range_len (PyRange start stop step) \<le> maxsize"
    using s by (intro init_window_fits[OF i]) simp
  ultimately have "fits r'"
    by (rule fits_same_ranges[OF fr _ init_valid_vr(2)[OF i]])
  then show ?thesis using v' wo fr by simp
qed

lemma reachable_inv:
  "reachable r \<Longrightarrow> valid_vr r \<and> window_ok r \<and> (vr_slice r \<noteq> None \<longrightarrow> fits r)"
proof (induction rule: reachable.induct)
  case (constructed start stop step order r)
  then show ?case using init_valid_vr(1,2)[OF constructed] by (simp add: window_ok_def)
next
  case (sliced r sl r')
  then show ?case using getslice_inv[of r sl r'] by blast
qed

lemma reachable_fits:
  assumes "reachable r" "vr_len r = Inr n"
  shows "fits r"
  using reachable_inv[OF assms(1)] vr_len_fits(1)[OF _ _ assms(2)] by blast

section \<open>Lookup, containment and count\<close>

lemma cube_zxy_constructed:
  "vector_range_init (Vector 2 2 2) None (Vector 1 1 1) ''zxy'' None = Inr cube_zxy"
  by code_simp

lemma cube_tail_sliced: "vr_getslice cube_zxy (Slice (Some 1) None None) = Inr cube_tail"
  by code_simp

lemma reachable_cube_zxy: "reachable cube_zxy"
  by (rule reachable.constructed[OF cube_zxy_constructed])

lemma reachable_cube_tail: "reachable cube_tail"
  by (rule reachable.sliced[OF reachable_cube_zxy cube_tail_sliced])

lemma until_raise_collect: "collect (until_raise ms) = collect ms"
  by (induction ms) (auto split: sum.splits)

lemma until_raise_Inr [simp]: "until_raise (map Inr vs) = map Inr vs"
  by (induction vs) simp_all


lemma collect_Inr_map: "collect ms = Inr vs \<Longrightarrow> ms = map Inr vs"
proof (induction ms arbitrary: vs)
  case Nil
  then show ?case by simp
next
  case (Cons m ms)
  then show ?case by (auto split: sum.splits)
qed

text \<open>When the iteration completes, the length can be taken and every read returns.\<close>

lemma vr_list_reads:
  assumes "vr_list r = Inr vs"
  shows "\<exists>n. vr_len r = Inr n \<and> map (vr_getitem r) [0..n - 1] = map Inr vs"
    and "vr_iter r = map Inr vs"
proof -
  show e: "vr_iter r = map Inr vs" using assms unfolding vr_list_def by (rule collect_Inr_map)
  show "\<exists>n. vr_len r = Inr n \<and> map (vr_getitem r) [0..n - 1] = map Inr vs"
  proof (cases "vr_len r")
    case (Inl e)
    then show ?thesis using assms by (simp add: vr_list_def vr_iter_def)
  next
    case (Inr n)
    then have "collect (map (vr_getitem r) [0..n - 1]) = Inr vs"
      using assms by (simp add: vr_list_def vr_iter_def until_raise_collect)
    then show ?thesis using Inr collect_Inr_map by blast
  qed
qed

lemma reads_nth:
  assumes "map (vr_getitem r) [0..n - 1] = map Inr vs" "0 \<le> n"
  shows "int (length vs) = n" "\<And>i. 0 \<le> i \<Longrightarrow> i < n \<Longrightarrow> vr_getitem r i = Inr (vs ! nat i)"
proof -
  have "length (map (vr_getitem r) [0..n - 1]) = length (map Inr vs)" using assms(1) by simp
  then show l: "int (length vs) = n" using assms(2) by simp
  fix i :: int assume i: "0 \<le> i" "i < n"
  then have k: "nat i < length [0..n - 1]" by simp
  have "[0..n - 1] ! nat i = i" using i by simp
  then have "vr_getitem r i = map (vr_getitem r) [0..n - 1] ! nat i" using k by simp
  also have "\<dots> = map Inr vs ! nat i" by (simp only: assms(1))
  also have "\<dots> = Inr (vs ! nat i)" using i l by simp
  finally show "vr_getitem r i = Inr (vs ! nat i)" .
qed

lemma reads_set:
  assumes "map (vr_getitem r) [0..n - 1] = map Inr vs" "0 \<le> n"
  shows "(v \<in> set vs) = (\<exists>i. 0 \<le> i \<and> i < n \<and> vr_getitem r i = Inr v)"
proof
  assume "v \<in> set vs"
  then obtain k where k: "k < length vs" "vs ! k = v" by (auto simp: in_set_conv_nth)
  then have "0 \<le> int k" "int k < n" using reads_nth(1)[OF assms] by simp_all
  moreover from this have "vr_getitem r (int k) = Inr v"
    using reads_nth(2)[OF assms, of "int k"] k(2) by simp
  ultimately show "\<exists>i. 0 \<le> i \<and> i < n \<and> vr_getitem r i = Inr v" by blast
next
  assume "\<exists>i. 0 \<le> i \<and> i < n \<and> vr_getitem r i = Inr v"
  then obtain i where i: "0 \<le> i" "i < n" "vr_getitem r i = Inr v" by blast
  then have "vs ! nat i = v" using reads_nth(2)[OF assms i(1,2)] by simp
  moreover have "nat i < length vs" using i reads_nth(1)[OF assms] by simp
  ultimately show "v \<in> set vs" by (metis nth_mem)
qed

text \<open>Lookup and reading are inverse on every range a caller can hold whose length can
  be taken.\<close>

lemma index_iff_read:
  assumes "reachable r" "vr_len r = Inr n"
  shows "(vr_index r v = Inr i) = (0 \<le> i \<and> i < n \<and> vr_getitem r i = Inr v)"
proof -
  have v: "valid_vr r" and w: "window_ok r" using reachable_inv[OF assms(1)] by simp_all
  have f: "fits r" by (rule reachable_fits[OF assms])
  show ?thesis
    using item_of_index[OF v w f assms(2), of v i] index_of_item[OF v w f assms(2), of i v]
    by blast
qed

lemma index_result:
  assumes "reachable r" "vr_len r = Inr n"
  shows "vr_index r v = Inl ValueError \<or> (\<exists>i. vr_index r v = Inr i)"
proof -
  have v: "valid_vr r" using reachable_inv[OF assms(1)] by simp
  have f: "fits r" by (rule reachable_fits[OF assms])
  show ?thesis using index_error[OF v f, of v] by (cases "vr_index r v") auto
qed

text \<open>
  C6 as stated fails in two ways. On the line \<^verbatim>\<open>vector_range(Vector(1, 1, 2**63))\<close>, whose
  length \<^verbatim>\<open>len\<close> cannot take, \<open>index\<close> and \<open>__contains__\<close> raise \<^verbatim>\<open>OverflowError\<close>, which is
  not the \<^verbatim>\<open>ValueError\<close> claimed. On the slice \<^verbatim>\<open>[8::-2]\<close> of the cube the iteration raises
  \<^verbatim>\<open>IndexError\<close> at its first read and so yields no element, yet \<open>index\<close> finds
  \<open>(1, 1, 0)\<close> at the index 1 and \<open>__contains__\<close> is true.
\<close>

theorem index_not_found_counterexample:
  "vector_range_init (Vector 1 1 (2 ^ 63)) None (Vector 1 1 1) ''zxy'' None = Inr huge_line
   \<and> vr_index huge_line (Vector 0 0 0) = Inl OverflowError
   \<and> vr_contains huge_line (Vector 0 0 0) = Inl OverflowError
   \<and> vr_getslice cube_zxy (Slice (Some 8) None (Some (- 2))) = Inr cube_back
   \<and> vr_iter cube_back = [Inl IndexError]
   \<and> vr_list cube_back = Inl IndexError
   \<and> vr_index cube_back (Vector 1 1 0) = Inr 1
   \<and> vr_contains cube_back (Vector 1 1 0) = Inr True"
  by code_simp

text \<open>
  C6, amended. For every range a caller can hold whose iteration completes, with the list
  \<open>vs\<close> of its elements, and every vector \<open>v\<close>: \<open>index(v)\<close> raises \<^verbatim>\<open>ValueError\<close> exactly
  when \<open>v\<close> is not in \<open>vs\<close>, and returns exactly when it is, the index returned being the
  position of \<open>v\<close> in \<open>vs\<close>; it raises no other exception (no assertion failure in
  particular); and \<open>__contains__\<close> returns whether \<open>index\<close> succeeds. The vector is
  arbitrary: outside the bounds, off the step lattice, or a raw member excluded by the
  window.
\<close>

theorem index_not_found_semantics:
  assumes "reachable r" "vr_list r = Inr vs"
  shows "((vr_index r v = Inl ValueError) = (v \<notin> set vs))
       \<and> ((\<exists>i. vr_index r v = Inr i) = (v \<in> set vs))
       \<and> (\<forall>i. (vr_index r v = Inr i) = (0 \<le> i \<and> i < int (length vs) \<and> vs ! nat i = v))
       \<and> (\<forall>e. vr_index r v = Inl e \<longrightarrow> e = ValueError)
       \<and> vr_contains r v = Inr (\<exists>i. vr_index r v = Inr i)
       \<and> vr_contains r v = Inr (v \<in> set vs)"
proof -
  obtain n where n: "vr_len r = Inr n" and m: "map (vr_getitem r) [0..n - 1] = map Inr vs"
    using vr_list_reads(1)[OF assms(2)] by blast
  have n0: "0 \<le> n" by (rule vr_len_bounds(1)[OF n])
  note l = reads_nth[OF m n0]
  have c: "vr_index r v = Inl ValueError \<or> (\<exists>i. vr_index r v = Inr i)"
    by (rule index_result[OF assms(1) n])
  have 3: "(vr_index r v = Inr i) = (0 \<le> i \<and> i < int (length vs) \<and> vs ! nat i = v)" for i
    unfolding index_iff_read[OF assms(1) n] l(1) using l(2)[of i] by auto
  have 2: "(\<exists>i. vr_index r v = Inr i) = (v \<in> set vs)"
    unfolding index_iff_read[OF assms(1) n] reads_set[OF m n0] by simp
  have 1: "(vr_index r v = Inl ValueError) = (v \<notin> set vs)" using c 2 by auto
  have 4: "\<forall>e. vr_index r v = Inl e \<longrightarrow> e = ValueError" using c by auto
  have 5: "vr_contains r v = Inr (\<exists>i. vr_index r v = Inr i)"
    using c by (auto simp: vr_contains_def)
  have 6: "vr_contains r v = Inr (v \<in> set vs)" using 5 2 by simp
  show ?thesis using 1 2 3 4 5 6 by blast
qed

text \<open>On the cube without its first element: \<open>(0, 0, 0)\<close> is a raw member excluded by the
  window, \<open>(2, 2, 2)\<close> is outside the bounds, and \<open>(1, 1, 1)\<close> is found at the logical
  index 6.\<close>

theorem index_not_found_semantics_witness:
  "reachable cube_tail
   \<and> vr_list cube_tail =
       Inr [Vector 0 0 1, Vector 1 0 0, Vector 1 0 1, Vector 0 1 0, Vector 0 1 1, Vector 1 1 0,
            Vector 1 1 1]
   \<and> vr_index cube_tail (Vector 0 0 0) = Inl ValueError
   \<and> vr_contains cube_tail (Vector 0 0 0) = Inr False
   \<and> vr_index cube_tail (Vector 2 2 2) = Inl ValueError
   \<and> vr_contains cube_tail (Vector 2 2 2) = Inr False
   \<and> vr_index cube_tail (Vector 1 1 1) = Inr 6
   \<and> vr_contains cube_tail (Vector 1 1 1) = Inr True"
proof -
  have c: "vr_list cube_tail =
       Inr [Vector 0 0 1, Vector 1 0 0, Vector 1 0 1, Vector 0 1 0, Vector 0 1 1, Vector 1 1 0,
            Vector 1 1 1]" by code_simp
  have b: "vr_index cube_tail (Vector 1 1 1) = Inr 6" by code_simp
  show ?thesis
    using index_not_found_semantics[OF reachable_cube_tail c, of "Vector 0 0 0"]
      index_not_found_semantics[OF reachable_cube_tail c, of "Vector 2 2 2"]
      index_not_found_semantics[OF reachable_cube_tail c, of "Vector 1 1 1"]
      reachable_cube_tail b c
    by simp
qed







section \<open>The forward mapping and the constructor\<close>

lemma range_index_contains:
  "(\<exists>i. range_index R x = Inr i) = range_contains R x"
  by (cases R) (simp add: range_index.simps)

lemma lattice_order:
  assumes "valid_order order"
  shows "(v \<in> lattice start stop step) =
         (range_contains (axis_range start stop step (order ! 0)) (axis v (order ! 0))
        \<and> range_contains (axis_range start stop step (order ! 1)) (axis v (order ! 1))
        \<and> range_contains (axis_range start stop step (order ! 2)) (axis v (order ! 2)))"
  using assms by (rule valid_order_cases) (auto simp: lattice_def axis_def)

lemma raw_index_iff_lattice:
  assumes "valid_vr r" "raw_len r \<le> maxsize"
  shows "(\<exists>n. raw_index r v = Inr n) = (v \<in> lattice (vr_start r) (vr_stop r) (vr_step r))"
proof (rule valid_vr_bundle[OF assms(1)])
  fix c0 c1 c2 R0 R1 R2 p0 p1 p2
  assume b:
    "vr_order r = [c0, c1, c2]" "vr_ranges r = [R0, R1, R2]"
    "r_step R0 \<noteq> 0" "r_step R1 \<noteq> 0" "r_step R2 \<noteq> 0"
    "\<And>v. getattr v c0 = Inr (axis v c0)" "\<And>v. getattr v c1 = Inr (axis v c1)"
    "\<And>v. getattr v c2 = Inr (axis v c2)"
    "R0 = axis_range (vr_start r) (vr_stop r) (vr_step r) c0"
    "R1 = axis_range (vr_start r) (vr_stop r) (vr_step r) c1"
    "R2 = axis_range (vr_start r) (vr_stop r) (vr_step r) c2"
    "raw_len r = range_len R0 * range_len R1 * range_len R2"
  have fit: "range_len R0 * range_len R1 * range_len R2 \<le> maxsize" using assms(2) b(12) by simp
  have vo: "valid_order (vr_order r)" using assms by (simp add: valid_vr_def)
  have l: "(v \<in> lattice (vr_start r) (vr_stop r) (vr_step r)) =
      (range_contains R0 (axis v c0) \<and> range_contains R1 (axis v c1) \<and> range_contains R2 (axis v c2))"
    unfolding lattice_order[OF vo] b(1) b(9) b(10) b(11) by simp
  show ?thesis
  proof (cases "range_contains R0 (axis v c0) \<and> range_contains R1 (axis v c1)
      \<and> range_contains R2 (axis v c2)")
    case True
    then obtain d0 d1 d2 where i: "range_index R0 (axis v c0) = Inr d0"
      "range_index R1 (axis v c1) = Inr d1" "range_index R2 (axis v c2) = Inr d2"
      unfolding range_index_contains[symmetric] by blast
    have "raw_index r v = Inr (d0 + range_len R0 * (d1 + range_len R1 * d2))"
      by (rule raw_index_found[OF b(2) b(3) b(4) b(5) b(1) b(6) b(7) b(8) i fit])
    then show ?thesis using True l by simp
  next
    case False
    then have "range_index R0 (axis v c0) = Inl ValueError
        \<or> range_index R1 (axis v c1) = Inl ValueError
        \<or> range_index R2 (axis v c2) = Inl ValueError"
      unfolding range_index_contains[symmetric]
      using range_index_cases[of R0 "axis v c0"] range_index_cases[of R1 "axis v c1"]
        range_index_cases[of R2 "axis v c2"] by blast
    then have "raw_index r v = Inl ValueError"
      by (rule raw_index_missing[OF b(2) b(3) b(4) b(5) b(1) b(6) b(7) b(8) _ fit])
    then show ?thesis using False l by simp
  qed
qed

lemma raw_len_spec:
  assumes "valid_vr r"
  shows "raw_len r =
      range_len (axis_range (vr_start r) (vr_stop r) (vr_step r) (vr_order r ! 0))
    * range_len (axis_range (vr_start r) (vr_stop r) (vr_step r) (vr_order r ! 1))
    * range_len (axis_range (vr_start r) (vr_stop r) (vr_step r) (vr_order r ! 2))"
proof (rule valid_vr_bundle[OF assms(1)])
  fix c0 c1 c2 R0 R1 R2 p0 p1 p2
  assume b:
    "vr_order r = [c0, c1, c2]"
    "raw_len r = range_len R0 * range_len R1 * range_len R2"
    "R0 = axis_range (vr_start r) (vr_stop r) (vr_step r) c0"
    "R1 = axis_range (vr_start r) (vr_stop r) (vr_step r) c1"
    "R2 = axis_range (vr_start r) (vr_stop r) (vr_step r) c2"
  show ?thesis unfolding b(2) b(3) b(4) b(5) b(1) by simp
qed

lemma unwindowed_items:
  assumes v: "valid_vr r" and s: "vr_slice r = None" and ft: "fits r"
  defines "f \<equiv> spec_getitem (vr_start r) (vr_stop r) (vr_step r) (vr_order r)"
  shows "vr_len r = Inr (raw_len r)"
    and "\<And>i. 0 \<le> i \<Longrightarrow> i < raw_len r \<Longrightarrow> vr_getitem r i = Inr (f i)"
    and "vr_list r = Inr (map f [0..raw_len r - 1])"
    and "distinct (map f [0..raw_len r - 1])"
    and "set (map f [0..raw_len r - 1]) = lattice (vr_start r) (vr_stop r) (vr_step r)"
proof -
  have w: "window_ok r" using s by (simp add: window_ok_def)
  show n: "vr_len r = Inr (raw_len r)" using vr_len_valid[OF v w ft] s by simp
  show g: "vr_getitem r i = Inr (f i)" if "0 \<le> i" "i < raw_len r" for i
    unfolding vr_getitem_eq[OF v w ft n that] s f_def
    using raw_getitem_spec[OF v that] by simp
  have "collect (map (vr_getitem r) [0..raw_len r - 1]) = Inr (map f [0..raw_len r - 1])"
  proof (rule collect_map_Inr)
    fix a assume "a \<in> set [0..raw_len r - 1]"
    then have "0 \<le> a" "a < raw_len r" by simp_all
    then show "vr_getitem r a = Inr (f a)" by (rule g)
  qed
  then show "vr_list r = Inr (map f [0..raw_len r - 1])"
    by (simp add: vr_list_def vr_iter_def n until_raise_collect)
  have "inj_on f {0..raw_len r - 1}"
  proof (rule inj_onI)
    fix i j assume i: "i \<in> {0..raw_len r - 1}" and j: "j \<in> {0..raw_len r - 1}" and e: "f i = f j"
    have a: "vr_index r (f i) = Inr i"
      using index_of_item[OF v w ft n, of i "f i"] g[of i] i by simp
    have b: "vr_index r (f j) = Inr j"
      using index_of_item[OF v w ft n, of j "f j"] g[of j] j by simp
    show "i = j" using a b e by (metis sum.inject(2))
  qed
  then show "distinct (map f [0..raw_len r - 1])" by (simp add: distinct_map)
  have "(x \<in> f ` {0..raw_len r - 1}) = (x \<in> lattice (vr_start r) (vr_stop r) (vr_step r))" for x
  proof
    assume "x \<in> f ` {0..raw_len r - 1}"
    then obtain i where i: "0 \<le> i" "i < raw_len r" "x = f i" by auto
    then have "vr_index r x = Inr i" using index_of_item[OF v w ft n, of i x] g[of i] by simp
    then have "\<exists>n. raw_index r x = Inr n" unfolding vr_index_unfold_valid[OF v ft] s
      by (cases "raw_index r x") auto
    then show "x \<in> lattice (vr_start r) (vr_stop r) (vr_step r)"
      unfolding raw_index_iff_lattice[OF v fits_raw[OF ft]] .
  next
    assume "x \<in> lattice (vr_start r) (vr_stop r) (vr_step r)"
    then obtain k where "raw_index r x = Inr k"
      unfolding raw_index_iff_lattice[OF v fits_raw[OF ft], symmetric] by blast
    then have "vr_index r x = Inr k" unfolding vr_index_unfold_valid[OF v ft] s by simp
    then have "0 \<le> k \<and> k < raw_len r \<and> vr_getitem r k = Inr x"
      by (rule item_of_index[OF v w ft n])
    then have "0 \<le> k" "k < raw_len r" "x = f k" using g[of k] by simp_all
    then have "k \<in> {0..raw_len r - 1}" by simp
    then show "x \<in> f ` {0..raw_len r - 1}" using \<open>x = f k\<close> by blast
  qed
  then show "set (map f [0..raw_len r - 1]) = lattice (vr_start r) (vr_stop r) (vr_step r)"
    by auto
qed

lemma cube_xyz_constructed:
  "vector_range_init (Vector 2 2 2) None (Vector 1 1 1) ''xyz'' None = Inr cube_xyz"
  by code_simp

lemma cube_xyz_list:
  "vr_list cube_xyz =
     Inr [Vector 0 0 0, Vector 1 0 0, Vector 0 1 0, Vector 1 1 0,
          Vector 0 0 1, Vector 1 0 1, Vector 0 1 1, Vector 1 1 1]"
  by code_simp

text \<open>The length of an unwindowed range can be taken exactly when the three axis lengths
  and their product fit; otherwise \<^verbatim>\<open>len\<close> raises \<^verbatim>\<open>OverflowError\<close>.\<close>

lemma vr_len_unwindowed_cases:
  assumes "valid_vr r" "vr_slice r = None"
  shows "vr_len r = (if fits r then Inr (raw_len r) else Inl OverflowError)"
proof (cases "fits r")
  case True
  have "window_ok r" using assms(2) by (simp add: window_ok_def)
  then show ?thesis using vr_len_valid[OF assms(1) _ True] assms(2) True by simp
next
  case False
  have "vr_len r = Inl OverflowError"
  proof (rule valid_vr_bundle[OF assms(1)])
    fix c0 c1 c2 R0 R1 R2 p0 p1 p2
    assume b: "vr_ranges r = [R0, R1, R2]"
      "r_step R0 \<noteq> 0" "r_step R1 \<noteq> 0" "r_step R2 \<noteq> 0"
      "raw_len r = range_len R0 * range_len R1 * range_len R2"
    have nf: "\<not> (range_len R0 \<le> maxsize \<and> range_len R1 \<le> maxsize \<and> range_len R2 \<le> maxsize
        \<and> range_len R0 * range_len R1 * range_len R2 \<le> maxsize)"
      using False b(1,5) assms(2) by (simp add: fits_def)
    have c: "len_range R = Inr (range_len R) \<or> len_range R = Inl OverflowError"
      if "r_step R \<noteq> 0" for R
      using that len_range_Inr[OF that] len_range_overflow[of R] by (cases "range_len R \<le> maxsize") simp_all
    show ?thesis
    proof (cases "range_len R0 \<le> maxsize \<and> range_len R1 \<le> maxsize \<and> range_len R2 \<le> maxsize")
      case True
      then have "maxsize < range_len R0 * range_len R1 * range_len R2" using nf by simp
      then have "py_len (range_len R0 * range_len R1 * range_len R2) = Inl OverflowError"
        by (rule py_len_overflow)
      then show ?thesis
        using True b assms(2) by (simp add: vr_len_def vr_dunder_len_def len_range_Inr)
    next
      case False
      then have "len_range R0 = Inl OverflowError
          \<or> (len_range R0 = Inr (range_len R0) \<and> len_range R1 = Inl OverflowError)
          \<or> (len_range R0 = Inr (range_len R0) \<and> len_range R1 = Inr (range_len R1)
              \<and> len_range R2 = Inl OverflowError)"
        using c[OF b(2)] c[OF b(3)] c[OF b(4)]
          len_range_Inr_iff[OF b(2)] len_range_Inr_iff[OF b(3)] len_range_Inr_iff[OF b(4)]
        by (metis sum.distinct(1))
      then show ?thesis
        using b(1) assms(2) by (auto simp: vr_len_def vr_dunder_len_def)
    qed
  qed
  then show ?thesis using False by simp
qed

text \<open>
  C2 as stated fails on the line \<^verbatim>\<open>vector_range(Vector(1, 1, 2**63))\<close>: its fastest axis
  is longer than \<^verbatim>\<open>sys.maxsize\<close>, so \<^verbatim>\<open>len\<close> and every read, the read at the index 0
  included, raise \<^verbatim>\<open>OverflowError\<close>, where the element \<open>(0, 0, 0)\<close> is claimed.
\<close>

theorem forward_mapping_counterexample:
  "vector_range_init (Vector 1 1 (2 ^ 63)) None (Vector 1 1 1) ''zxy'' None = Inr huge_line
   \<and> vr_slice huge_line = None
   \<and> vr_len huge_line = Inl OverflowError
   \<and> vr_getitem huge_line 0 = Inl OverflowError
   \<and> vr_list huge_line = Inl OverflowError
   \<and> spec_getitem (Vector 0 0 0) (Vector 1 1 (2 ^ 63)) (Vector 1 1 1) ''zxy'' 0 = Vector 0 0 0"
  by code_simp

text \<open>
  C2, amended. For every unwindowed range whose length can be taken (the three axis
  lengths and their product are at most \<^verbatim>\<open>sys.maxsize\<close>) and every linear index \<open>i\<close> in
  \<open>[0, length)\<close>, the element at \<open>i\<close> is the vector the specification describes
  (\<open>spec_getitem\<close>: the positions \<open>i mod len(P0)\<close>, \<open>(i div len(P0)) mod len(P1)\<close> and
  \<open>i div (len(P0) * len(P1))\<close>, each mapped through its progression, placed according to the
  order); the length is the product of the three lengths; the iteration lists every point
  of the lattice exactly once; and the \<open>2 \<times> 2 \<times> 2\<close> cube in the order \<open>xyz\<close> yields the
  sequence of the specification.
\<close>

theorem forward_mapping:
  assumes "vector_range_init start stop step order None = Inr r" "vr_len r = Inr m"
  shows "(let P0 = axis_range (vr_start r) (vr_stop r) (vr_step r) (order ! 0);
              P1 = axis_range (vr_start r) (vr_stop r) (vr_step r) (order ! 1);
              P2 = axis_range (vr_start r) (vr_stop r) (vr_step r) (order ! 2);
              n = range_len P0 * range_len P1 * range_len P2;
              f = spec_getitem (vr_start r) (vr_stop r) (vr_step r) order
          in m = n
           \<and> range_len P0 \<le> maxsize \<and> range_len P1 \<le> maxsize \<and> range_len P2 \<le> maxsize
           \<and> n \<le> maxsize
           \<and> (\<forall>i. 0 \<le> i \<and> i < n \<longrightarrow> vr_getitem r i = Inr (f i))
           \<and> vr_list r = Inr (map f [0..n - 1])
           \<and> distinct (map f [0..n - 1])
           \<and> set (map f [0..n - 1]) = lattice (vr_start r) (vr_stop r) (vr_step r))
       \<and> vector_range_init (Vector 2 2 2) None (Vector 1 1 1) ''xyz'' None = Inr cube_xyz
       \<and> vr_list cube_xyz =
           Inr [Vector 0 0 0, Vector 1 0 0, Vector 0 1 0, Vector 1 1 0,
                Vector 0 0 1, Vector 1 0 1, Vector 0 1 1, Vector 1 1 1]"
proof -
  have v: "valid_vr r" and s: "vr_slice r = None" and o: "vr_order r = order"
    using init_valid_vr[OF assms(1)] by simp_all
  have ft: "fits r" and m: "m = raw_len r" using vr_len_fits[OF v s assms(2)] by simp_all
  note u = unwindowed_items[OF v s ft, unfolded o] and l = raw_len_spec[OF v, unfolded o]
  have a: "range_len (axis_range (vr_start r) (vr_stop r) (vr_step r) (order ! 0)) \<le> maxsize
      \<and> range_len (axis_range (vr_start r) (vr_stop r) (vr_step r) (order ! 1)) \<le> maxsize
      \<and> range_len (axis_range (vr_start r) (vr_stop r) (vr_step r) (order ! 2)) \<le> maxsize"
  proof (rule valid_vr_bundle[OF v])
    fix c0 c1 c2 R0 R1 R2 p0 p1 p2
    assume b: "vr_order r = [c0, c1, c2]" "vr_ranges r = [R0, R1, R2]"
      "R0 = axis_range (vr_start r) (vr_stop r) (vr_step r) c0"
      "R1 = axis_range (vr_start r) (vr_stop r) (vr_step r) c1"
      "R2 = axis_range (vr_start r) (vr_stop r) (vr_step r) c2"
    have "range_len R0 \<le> maxsize" "range_len R1 \<le> maxsize" "range_len R2 \<le> maxsize"
      using ft b(2) by (simp_all add: fits_def)
    then show ?thesis using b(1,3,4,5) o by auto
  qed
  have rl: "raw_len r \<le> maxsize" by (rule fits_raw[OF ft])
  show ?thesis
    unfolding Let_def l[symmetric]
    using u m a rl cube_xyz_constructed cube_xyz_list by blast
qed

text \<open>At the cube in the order \<open>xyz\<close>: the element 5 is \<open>(1, 0, 1)\<close>, by the code and by
  the formula.\<close>

theorem forward_mapping_witness:
  "vector_range_init (Vector 2 2 2) None (Vector 1 1 1) ''xyz'' None = Inr cube_xyz
   \<and> vr_len cube_xyz = Inr 8
   \<and> vr_list cube_xyz =
       Inr (map (spec_getitem (Vector 0 0 0) (Vector 2 2 2) (Vector 1 1 1) ''xyz'') [0..7])
   \<and> vr_getitem cube_xyz 5 = Inr (Vector 1 0 1)
   \<and> spec_getitem (Vector 0 0 0) (Vector 2 2 2) (Vector 1 1 1) ''xyz'' 5 = Vector 1 0 1
   \<and> distinct (map (spec_getitem (Vector 0 0 0) (Vector 2 2 2) (Vector 1 1 1) ''xyz'') [0..7])"
proof -
  have f: "vr_start cube_xyz = Vector 0 0 0" "vr_stop cube_xyz = Vector 2 2 2"
    "vr_step cube_xyz = Vector 1 1 1" by (simp_all add: cube_xyz_def)
  have n: "range_len (axis_range (Vector 0 0 0) (Vector 2 2 2) (Vector 1 1 1) (''xyz'' ! 0))
         * range_len (axis_range (Vector 0 0 0) (Vector 2 2 2) (Vector 1 1 1) (''xyz'' ! 1))
         * range_len (axis_range (Vector 0 0 0) (Vector 2 2 2) (Vector 1 1 1) (''xyz'' ! 2)) = 8"
    by code_simp
  have s: "spec_getitem (Vector 0 0 0) (Vector 2 2 2) (Vector 1 1 1) ''xyz'' 5 = Vector 1 0 1"
    by code_simp
  have m: "vr_len cube_xyz = Inr 8" by code_simp
  show ?thesis
    using forward_mapping[OF cube_xyz_constructed m] cube_xyz_constructed s m
    unfolding Let_def f n by simp
qed

text \<open>
  C5. Constructing a range raises \<^verbatim>\<open>ValueError\<close> if and only if the order is not one of
  the six permutations of \<open>xyz\<close> or a component of the step is zero (whatever the window
  argument); then no range is returned. For valid arguments the public constructor
  succeeds with the given start, stop, step and order, where an omitted stop makes the
  first argument the stop and the start the zero vector; and every range the constructor
  returns has these fields.
\<close>

theorem construction_validation:
  "((vector_range_init start stop step order w = Inl ValueError)
      = (order \<notin> set [''xyz'', ''xzy'', ''yxz'', ''yzx'', ''zxy'', ''zyx'']
         \<or> vx step = 0 \<or> vy step = 0 \<or> vz step = 0))
   \<and> (order \<in> set [''xyz'', ''xzy'', ''yxz'', ''yzx'', ''zxy'', ''zyx'']
        \<and> vx step \<noteq> 0 \<and> vy step \<noteq> 0 \<and> vz step \<noteq> 0
      \<longrightarrow> (\<exists>r. vector_range_init start stop step order None = Inr r))
   \<and> (\<forall>r. vector_range_init start stop step order w = Inr r
      \<longrightarrow> vr_start r = (case stop of None \<Rightarrow> Vector 0 0 0 | Some s \<Rightarrow> start)
        \<and> vr_stop r = (case stop of None \<Rightarrow> start | Some s \<Rightarrow> s)
        \<and> vr_step r = step \<and> vr_order r = order \<and> vr_slice r = w)"
proof -
  have 1: "(vector_range_init start stop step order w = Inl ValueError)
      = (\<not> valid_order order \<or> \<not> nonzero step)"
  proof (cases "valid_order order \<and> nonzero step")
    case True
    let ?u = "unwindowed (case stop of None \<Rightarrow> Vector 0 0 0 | Some s \<Rightarrow> start)
                (case stop of None \<Rightarrow> start | Some s \<Rightarrow> s) step order"
    have "valid_vr (?u \<lparr> vr_slice := None \<rparr>)" using True by (simp add: valid_vr_unwindowed)
    moreover have us: "?u \<lparr> vr_slice := None \<rparr> = ?u" by (simp add: unwindowed_def)
    ultimately have vu: "valid_vr ?u" by simp
    have "vr_slice ?u = None" by (simp add: unwindowed_def)
    then have lu: "vr_len ?u \<noteq> Inl ValueError"
      using vr_len_unwindowed_cases[OF vu] by simp
    have lw: "len_range ww \<noteq> Inl ValueError" if "0 < range_len ww" for ww
      using that by (simp add: len_range_def py_len_def)
    have "vector_range_init start stop step order w \<noteq> Inl ValueError"
    proof (cases w)
      case None
      then show ?thesis using True by (simp add: init_eq Let_def)
    next
      case (Some ww)
      show ?thesis
      proof (cases "0 < range_len ww")
        case False
        then show ?thesis using True Some by (simp add: init_eq Let_def)
      next
        case p: True
        show ?thesis
        proof (cases "len_range ww")
          case (Inl e)
          then show ?thesis using True Some p lw[OF p] by (simp add: init_eq Let_def)
        next
          case m: (Inr m)
          show ?thesis
          proof (cases "vr_len ?u")
            case (Inl e)
            then show ?thesis using True Some p m lu by (simp add: init_eq Let_def)
          next
            case (Inr n)
            then show ?thesis using True Some p m by (simp add: init_eq Let_def)
          qed
        qed
      qed
    qed
    then show ?thesis using True by simp
  next
    case False
    have "vector_range_init start stop step order w = Inl ValueError"
    proof (cases "vector_range_init start stop step order w")
      case (Inl e)
      show ?thesis
      proof (cases "valid_order order")
        case True
        then have "\<not> nonzero step" using False by simp
        then show ?thesis
          using True unfolding vector_range_init_def Let_def
          by (simp add: valid_order_def[symmetric] init_zero_step)
      next
        case False
        then show ?thesis by (rule init_invalid_order)
      qed
    next
      case (Inr r)
      then show ?thesis using init_Inr[OF Inr] False by simp
    qed
    then show ?thesis using False by simp
  qed
  have 2: "valid_order order \<and> nonzero step
      \<longrightarrow> (\<exists>r. vector_range_init start stop step order None = Inr r)"
    by (simp add: init_eq Let_def)
  have 3: "\<forall>r. vector_range_init start stop step order w = Inr r
      \<longrightarrow> vr_start r = (case stop of None \<Rightarrow> Vector 0 0 0 | Some s \<Rightarrow> start)
        \<and> vr_stop r = (case stop of None \<Rightarrow> start | Some s \<Rightarrow> s)
        \<and> vr_step r = step \<and> vr_order r = order \<and> vr_slice r = w"
  proof (intro allI impI)
    fix r assume r: "vector_range_init start stop step order w = Inr r"
    show "vr_start r = (case stop of None \<Rightarrow> Vector 0 0 0 | Some s \<Rightarrow> start)
        \<and> vr_stop r = (case stop of None \<Rightarrow> start | Some s \<Rightarrow> s)
        \<and> vr_step r = step \<and> vr_order r = order \<and> vr_slice r = w"
      using init_valid_vr(2-6)[OF r] by simp
  qed
  show ?thesis
    using 1 2 3 unfolding valid_order_def nonzero_def by blast
qed

text \<open>A valid construction with the stop-only shorthand, and the two failures of the
  tests: a zero step component and the order \<open>abc\<close>.\<close>

theorem construction_validation_witness:
  "vector_range_init (Vector 2 2 2) None (Vector 1 1 1) ''zxy'' None = Inr cube_zxy
   \<and> vr_start cube_zxy = Vector 0 0 0 \<and> vr_stop cube_zxy = Vector 2 2 2
   \<and> vr_step cube_zxy = Vector 1 1 1 \<and> vr_order cube_zxy = ''zxy''
   \<and> vector_range_init (Vector 1 1 1) None (Vector 1 1 0) ''zxy'' None = Inl ValueError
   \<and> vector_range_init (Vector 2 2 2) None (Vector 1 1 1) ''abc'' None = Inl ValueError"
  using construction_validation[of "Vector 2 2 2" None "Vector 1 1 1" "''zxy''" None]
    construction_validation[of "Vector 1 1 1" None "Vector 1 1 0" "''zxy''" None]
    construction_validation[of "Vector 2 2 2" None "Vector 1 1 1" "''abc''" None]
    cube_zxy_constructed
  by simp

section \<open>Ordering\<close>

lemma Vector_lt_irrefl: "\<not> Vector_lt a a"
  by (simp add: Vector_lt_def)

lemma Vector_lt_asym: "Vector_lt a b \<Longrightarrow> \<not> Vector_lt b a"
  by (auto simp: Vector_lt_def)

lemma Vector_lt_total: "\<not> Vector_lt a b \<Longrightarrow> \<not> Vector_lt b a \<Longrightarrow> a = b"
  by (auto simp: Vector_lt_def Vector.expand)

lemma differ_lt_Nil [simp]: "\<not> differ_lt [] ys" "\<not> differ_lt xs []"
  by (simp_all add: differ_lt_def)

lemma differ_lt_Cons:
  "differ_lt (x # xs) (y # ys) = (Vector_lt x y \<or> (x = y \<and> differ_lt xs ys))"
proof
  assume "differ_lt (x # xs) (y # ys)"
  then obtain ps a b xs' ys' where d: "x # xs = ps @ a # xs'" "y # ys = ps @ b # ys'"
    "Vector_lt a b" unfolding differ_lt_def by blast
  show "Vector_lt x y \<or> (x = y \<and> differ_lt xs ys)"
  proof (cases ps)
    case Nil
    then show ?thesis using d by simp
  next
    case (Cons p ps')
    then have "x = y" "xs = ps' @ a # xs'" "ys = ps' @ b # ys'" using d by simp_all
    then show ?thesis using d(3) unfolding differ_lt_def by blast
  qed
next
  assume "Vector_lt x y \<or> (x = y \<and> differ_lt xs ys)"
  then show "differ_lt (x # xs) (y # ys)"
  proof
    assume "Vector_lt x y"
    then have "x # xs = [] @ x # xs \<and> y # ys = [] @ y # ys \<and> Vector_lt x y" by simp
    then show ?thesis unfolding differ_lt_def by blast
  next
    assume "x = y \<and> differ_lt xs ys"
    then obtain ps a b xs' ys' where d: "x = y" "xs = ps @ a # xs'" "ys = ps @ b # ys'"
      "Vector_lt a b" unfolding differ_lt_def by blast
    then have "x # xs = (x # ps) @ a # xs' \<and> y # ys = (x # ps) @ b # ys' \<and> Vector_lt a b"
      by simp
    then show ?thesis unfolding differ_lt_def by blast
  qed
qed

lemma lt_loop_True_iff:
  "(lt_loop (map Inr xs) (map Inr ys) = Inr True) = differ_lt xs ys"
proof (induction xs arbitrary: ys)
  case Nil
  then show ?case by (cases ys) simp_all
next
  case (Cons x xs)
  show ?case
  proof (cases ys)
    case Nil
    then show ?thesis by simp
  next
    case (Cons y ys')
    show ?thesis unfolding Cons differ_lt_Cons
      using Cons.IH[of ys'] Vector_lt_asym[of x y] Vector_lt_total[of x y] Vector_lt_irrefl[of x]
      by auto
  qed
qed

lemma lt_loop_False_iff:
  "(lt_loop (map Inr xs) (map Inr ys) = Inr False) = (xs = ys \<or> differ_lt ys xs)"
proof (induction xs arbitrary: ys)
  case Nil
  then show ?case by (cases ys) simp_all
next
  case (Cons x xs)
  show ?case
  proof (cases ys)
    case Nil
    then show ?thesis by simp
  next
    case (Cons y ys')
    show ?thesis unfolding Cons differ_lt_Cons
      using Cons.IH[of ys'] Vector_lt_asym[of x y] Vector_lt_total[of x y] Vector_lt_irrefl[of x]
      by auto
  qed
qed

lemma cube_zxy_iter:
  "vr_iter cube_zxy = map Inr [Vector 0 0 0, Vector 0 0 1, Vector 1 0 0, Vector 1 0 1,
      Vector 0 1 0, Vector 0 1 1, Vector 1 1 0, Vector 1 1 1]"
  by code_simp

lemma cube_xyz_iter:
  "vr_iter cube_xyz = map Inr [Vector 0 0 0, Vector 1 0 0, Vector 0 1 0, Vector 1 1 0,
      Vector 0 0 1, Vector 1 0 1, Vector 0 1 1, Vector 1 1 1]"
  by code_simp

lemma lt_loop_raises_iff:
  "(lt_loop (map Inr xs) (map Inr ys) = Inl e)
    = (e = TypeError \<and> (\<exists>z zs. ys = xs @ z # zs \<or> xs = ys @ z # zs))"
proof (induction xs arbitrary: ys)
  case Nil
  then show ?case by (cases ys) auto
next
  case (Cons x xs)
  show ?case
  proof (cases ys)
    case Nil
    then show ?thesis by auto
  next
    case (Cons y ys')
    show ?thesis
    proof (cases "Vector_lt x y \<or> Vector_lt y x")
      case True
      then have "x \<noteq> y" using Vector_lt_irrefl by auto
      then show ?thesis using True Cons by auto
    next
      case False
      then have "x = y" using Vector_lt_total by blast
      then show ?thesis using False Cons Cons.IH[of ys'] by auto
    qed
  qed
qed

text \<open>The part of C7 that holds. When the iteration of the range yields the vectors \<open>xs\<close>
  and the other operand (a range, or a list of vectors) the vectors \<open>ys\<close>, \<open><\<close> returns
  true exactly when at the first position where the sequences differ the element of the
  range is the smaller, and returns false exactly when the sequences are equal or at the
  first position where they differ the element of the range is the larger; no tie-break by
  length takes part. It raises exactly when one sequence is a strict prefix of the other,
  and then \<^verbatim>\<open>TypeError\<close>.\<close>

lemma lt_first_difference:
  assumes "vr_iter r1 = map Inr xs" "seq_iter other = map Inr ys"
  shows "(vr_lt r1 other = Inr True) = differ_lt xs ys"
    and "(vr_lt r1 other = Inr False) = (xs = ys \<or> differ_lt ys xs)"
    and "(vr_lt r1 other = Inl e)
         = (e = TypeError \<and> (\<exists>z zs. ys = xs @ z # zs \<or> xs = ys @ z # zs))"
  unfolding vr_lt_def assms lt_loop_True_iff lt_loop_False_iff lt_loop_raises_iff by simp_all

text \<open>The comparison of the tests: the cube in the default order is less than the cube
  in the order \<open>xyz\<close>; they first differ at the second element.\<close>

lemma lt_on_cubes:
  "vr_lt cube_zxy (OfRange cube_xyz) = Inr True"
  "differ_lt [Vector 0 0 0, Vector 0 0 1, Vector 1 0 0, Vector 1 0 1,
      Vector 0 1 0, Vector 0 1 1, Vector 1 1 0, Vector 1 1 1]
      [Vector 0 0 0, Vector 1 0 0, Vector 0 1 0, Vector 1 1 0,
      Vector 0 0 1, Vector 1 0 1, Vector 0 1 1, Vector 1 1 1]"
  "vr_lt cube_xyz (OfRange cube_zxy) = Inr False"
proof -
  have y: "seq_iter (OfRange cube_xyz) = map Inr [Vector 0 0 0, Vector 1 0 0, Vector 0 1 0,
      Vector 1 1 0, Vector 0 0 1, Vector 1 0 1, Vector 0 1 1, Vector 1 1 1]"
    using cube_xyz_iter by simp
  have z: "seq_iter (OfRange cube_zxy) = map Inr [Vector 0 0 0, Vector 0 0 1, Vector 1 0 0,
      Vector 1 0 1, Vector 0 1 0, Vector 0 1 1, Vector 1 1 0, Vector 1 1 1]"
    using cube_zxy_iter by simp
  show t: "vr_lt cube_zxy (OfRange cube_xyz) = Inr True" by code_simp
  then show "differ_lt [Vector 0 0 0, Vector 0 0 1, Vector 1 0 0, Vector 1 0 1,
      Vector 0 1 0, Vector 0 1 1, Vector 1 1 0, Vector 1 1 1]
      [Vector 0 0 0, Vector 1 0 0, Vector 0 1 0, Vector 1 1 0,
      Vector 0 0 1, Vector 1 0 1, Vector 0 1 1, Vector 1 1 1]"
    unfolding lt_first_difference(1)[OF cube_zxy_iter y] .
  show "vr_lt cube_xyz (OfRange cube_zxy) = Inr False" by code_simp
qed

section \<open>What holds of the round trip, the helpers and slicing\<close>

text \<open>The round trip of C1 on the ranges that the defect of the negative-step slice does
  not reach: every unwindowed range, and every window whose raw indices lie below the
  unwindowed length (the length being one that \<^verbatim>\<open>len\<close> can take).\<close>

lemma round_trip_inside_raw_space:
  assumes "reachable r" "vr_len r = Inr n" "0 \<le> i" "i < n"
    and "case vr_slice r of None \<Rightarrow> True | Some w \<Rightarrow> progression w i < raw_len r"
  shows "\<exists>v. vr_getitem r i = Inr v \<and> vr_index r v = Inr i"
proof -
  have v: "valid_vr r" and w: "window_ok r" using reachable_inv[OF assms(1)] by simp_all
  have f: "fits r" by (rule reachable_fits[OF assms(1,2)])
  let ?raw = "case vr_slice r of None \<Rightarrow> i | Some w \<Rightarrow> progression w i"
  have n': "n = (case vr_slice r of None \<Rightarrow> raw_len r | Some w \<Rightarrow> range_len w)"
    using assms(2) vr_len_valid[OF v w f] by simp
  have r0: "0 \<le> ?raw" using window_raw_nonneg[OF w assms(3)] assms(4) n' by simp
  have r1: "?raw < raw_len r" using assms(4,5) n' by (cases "vr_slice r") simp_all
  have g: "vr_getitem r i = Inr (spec_getitem (vr_start r) (vr_stop r) (vr_step r) (vr_order r) ?raw)"
    unfolding vr_getitem_eq[OF v w f assms(2) assms(3) assms(4)]
    by (rule raw_getitem_spec[OF v r0 r1])
  show ?thesis using g index_of_item[OF v w f assms(2) assms(3) assms(4) g] by blast
qed

lemma round_trip_unwindowed:
  assumes "vector_range_init start stop step order None = Inr r" "vr_len r = Inr n"
    "0 \<le> i" "i < n"
  shows "\<exists>v. vr_getitem r i = Inr v \<and> vr_index r v = Inr i"
proof -
  have "vr_slice r = None" using init_valid_vr(2)[OF assms(1)] .
  then show ?thesis
    using round_trip_inside_raw_space[OF reachable.constructed[OF assms(1)] assms(2,3,4)] by simp
qed

lemma map_add_upto: "map (\<lambda>i. c + i) [0..m] = [c..c + m]"
proof (rule nth_equalityI)
  show "length (map (\<lambda>i. c + i) [0..m]) = length [c..c + m]" by simp
next
  fix k assume "k < length (map (\<lambda>i. c + i) [0..m])"
  then have k: "int k \<le> m" by simp
  then have "[0..m] ! k = int k" "[c..c + m] ! k = c + int k" by simp_all
  then show "map (\<lambda>i. c + i) [0..m] ! k = [c..c + m] ! k" using k by simp
qed

text \<open>The parts of C8 that hold: \<^verbatim>\<open>rmod\<close> is exact on a range of step 1 (the only kind
  \<^verbatim>\<open>index\<close> passes) whose length \<^verbatim>\<open>len\<close> can take, \<^verbatim>\<open>rdiv\<close> is exact, and both raise
  \<^verbatim>\<open>ValueError\<close> for a denominator that is not positive.\<close>

lemma rmod_rdiv_on_unit_ranges:
  "0 < d \<Longrightarrow> b - a \<le> maxsize \<Longrightarrow> \<exists>xs. rmod d res (NumRange (PyRange a b 1)) = Inr xs
      \<and> set xs = {n. a \<le> n \<and> n < b \<and> n mod d = res}"
  "0 < d \<Longrightarrow> \<exists>xs. rdiv d q = Inr xs \<and> xs = [q * d..q * d + d - 1]
      \<and> set xs = {n. n div d = q}"
  "d \<le> 0 \<Longrightarrow> rmod d res nr = Inl ValueError"
  "d \<le> 0 \<Longrightarrow> rdiv d q = Inl ValueError"
proof -
  show "\<exists>xs. rmod d res (NumRange (PyRange a b 1)) = Inr xs
      \<and> set xs = {n. a \<le> n \<and> n < b \<and> n mod d = res}" if "0 < d" "b - a \<le> maxsize"
    using rmod_unit_step[OF that, of res] by blast
  show "\<exists>xs. rdiv d q = Inr xs \<and> xs = [q * d..q * d + d - 1] \<and> set xs = {n. n div d = q}"
    if d: "0 < d"
  proof -
    have "range_iter (PyRange (q * d) (q * d + d) 1) = map (\<lambda>i. q * d + i) [0..d - 1]"
      using d by (simp add: range_iter.simps range_len_unit)
    also have "\<dots> = [q * d..q * d + d - 1]"
    proof -
      have "q * d + (d - 1) = q * d + d - 1" by simp
      then show ?thesis using map_add_upto[of "q * d" "d - 1"] by (simp only:)
    qed
    finally have "rdiv d q = Inr [q * d..q * d + d - 1]" using rdiv_exact[OF d, of q] by simp
    then show ?thesis using rdiv_set(1)[OF d, of q] by simp
  qed
  show "rmod d res nr = Inl ValueError" if "d \<le> 0" using that by (simp add: rmod_def)
  show "rdiv d q = Inl ValueError" if "d \<le> 0" using that by (simp add: rdiv_def)
qed

lemma raw_getitem_window: "raw_getitem (r \<lparr> vr_slice := w \<rparr>) = raw_getitem r"
  by (rule ext) (simp add: raw_getitem_def)

lemma range_len_pos_le:
  assumes "0 < s" "0 \<le> a" "b \<le> n" "0 \<le> n"
  shows "range_len (PyRange a b s) \<le> n"
proof (cases "a < b")
  case True
  have "(b - a - 1) div s \<le> (b - a - 1) div 1"
    using True assms(1) by (intro zdiv_mono2) simp_all
  then show ?thesis using True assms by (simp add: range_len.simps)
next
  case False
  then show ?thesis using assms by (simp add: range_len.simps)
qed

lemma slice_indices_pos:
  assumes "0 \<le> n" "0 < (case sl_step sl of None \<Rightarrow> 1 | Some s \<Rightarrow> s)"
  shows "slice_indices n sl =
     Inr (PyRange
       (min n (max 0 (case sl_start sl of None \<Rightarrow> 0 | Some s \<Rightarrow> if s < 0 then s + n else s)))
       (min n (max 0 (case sl_stop sl of None \<Rightarrow> n | Some s \<Rightarrow> if s < 0 then s + n else s)))
       (case sl_step sl of None \<Rightarrow> 1 | Some s \<Rightarrow> s))"
  using assms by (auto simp: slice_indices_def Let_def split: option.splits)

text \<open>The part of C4 that holds: a slice with a positive (or omitted) step of an
  unwindowed range whose length can be taken is a range with the same start, stop, step and order whose elements are
  those of the Python list slice of its elements.\<close>

lemma positive_step_slice:
  assumes c: "vector_range_init start stop step order None = Inr r"
    and l: "vr_len r = Inr m"
    and p: "0 < (case sl_step sl of None \<Rightarrow> 1 | Some s \<Rightarrow> s)"
  shows "\<exists>r' xs. vr_getslice r sl = Inr r' \<and> vr_list r = Inr xs
      \<and> vr_start r' = vr_start r \<and> vr_stop r' = vr_stop r \<and> vr_step r' = vr_step r
      \<and> vr_order r' = vr_order r \<and> vr_list r' = list_slice xs sl"
proof -
  have v: "valid_vr r" and s: "vr_slice r = None" using init_valid_vr(1,2)[OF c] by simp_all
  have ft: "fits r" by (rule vr_len_fits(1)[OF v s l])
  have w0: "window_ok r" using s by (simp add: window_ok_def)
  define n where "n = raw_len r"
  define f where "f = spec_getitem (vr_start r) (vr_stop r) (vr_step r) (vr_order r)"
  define xs where "xs = map f [0..n - 1]"
  note u = unwindowed_items[OF v s ft, folded n_def f_def xs_def]
  have nm: "n \<le> maxsize" unfolding n_def by (rule fits_raw[OF ft])
  have n0: "0 \<le> n" unfolding n_def by (rule raw_len_nonneg[OF v])
  have lx: "int (length xs) = n" using n0 by (simp add: xs_def)
  define st where "st = (case sl_step sl of None \<Rightarrow> 1 | Some s \<Rightarrow> s)"
  define a where "a = min n (max 0 (case sl_start sl of None \<Rightarrow> 0 | Some s \<Rightarrow> if s < 0 then s + n else s))"
  define b where "b = min n (max 0 (case sl_stop sl of None \<Rightarrow> n | Some s \<Rightarrow> if s < 0 then s + n else s))"
  define w where "w = PyRange a b st"
  have st: "0 < st" using p by (simp add: st_def)
  have ab: "0 \<le> a" "b \<le> n" using n0 by (simp_all add: a_def b_def)
  have m: "range_len w \<le> n" unfolding w_def by (rule range_len_pos_le[OF st ab n0])
  have si: "slice_indices n sl = Inr w"
    unfolding w_def a_def b_def st_def by (rule slice_indices_pos[OF n0 p])
  have vo: "valid_order (vr_order r)" and nz: "nonzero (vr_step r)"
    and ru: "r \<lparr> vr_slice := None \<rparr> = unwindowed (vr_start r) (vr_stop r) (vr_step r) (vr_order r)"
    using v by (simp_all add: valid_vr_def)
  have ru': "unwindowed (vr_start r) (vr_stop r) (vr_step r) (vr_order r) = r"
    using ru s by (metis vector_range.surjective vector_range.update_convs(7))
  define r' where "r' = r \<lparr> vr_slice := Some w \<rparr>"
  have "r_step w \<noteq> 0" using st by (simp add: w_def)
  then have lw: "len_range w = Inr (range_len w)" using m nm by (intro len_range_Inr) simp_all
  have i: "vector_range_init (vr_start r) (Some (vr_stop r)) (vr_step r) (vr_order r) (Some w) = Inr r'"
    unfolding init_eq[OF vo nz] Let_def using m u(1) lw by (simp add: ru' r'_def)
  have g: "vr_getslice r sl = Inr r'"
    unfolding vr_getslice_def Let_def u(1) and_then_Inr
    using st i by (simp add: py_range_def st_def[symmetric] a_def[symmetric] b_def[symmetric]
        w_def[symmetric])
  have "valid_vr r' \<and> window_ok r' \<and> fits r' \<and> fits r"
    by (rule getslice_inv[OF v w0 _ g]) (simp add: s)
  then have v': "valid_vr r'" and w': "window_ok r'" and f': "fits r'" by simp_all
  have n': "vr_len r' = Inr (range_len w)" using vr_len_valid[OF v' w' f'] by (simp add: r'_def)
  have e: "vr_getitem r' k = Inr (xs ! nat (progression w k))"
    if k: "0 \<le> k" "k < range_len w" for k
  proof -
    have lo: "0 \<le> progression w k" using k(1) ab(1) st by (simp add: progression_def w_def)
    have "a + k * st < b" using range_len_pos_step[OF st k(1), of a b] k(2) by (simp add: w_def)
    then have hi: "progression w k < n" using ab(2) by (simp add: progression_def w_def)
    have "vr_getitem r' k = raw_getitem r (progression w k)"
      unfolding vr_getitem_eq[OF v' w' f' n' k] by (simp add: r'_def raw_getitem_window)
    also have "\<dots> = vr_getitem r (progression w k)"
      unfolding vr_getitem_eq[OF v w0 ft u(1) lo hi] s by simp
    also have "\<dots> = Inr (f (progression w k))" by (rule u(2)[OF lo hi])
    also have "f (progression w k) = xs ! nat (progression w k)"
      using lo hi unfolding xs_def by simp
    finally show ?thesis .
  qed
  have "collect (map (vr_getitem r') [0..range_len w - 1])
        = Inr (map (\<lambda>k. xs ! nat (progression w k)) [0..range_len w - 1])"
  proof (rule collect_map_Inr)
    fix k assume "k \<in> set [0..range_len w - 1]"
    then have "0 \<le> k" "k < range_len w" by simp_all
    then show "vr_getitem r' k = Inr (xs ! nat (progression w k))" by (rule e)
  qed
  then have l': "vr_list r' = Inr (map (\<lambda>k. xs ! nat (progression w k)) [0..range_len w - 1])"
    by (simp add: vr_list_def vr_iter_def n' until_raise_collect)
  have "list_slice xs sl = Inr (map (\<lambda>i. xs ! nat i) (range_iter w))"
    by (simp add: list_slice_def lx si)
  also have "map (\<lambda>i. xs ! nat i) (range_iter w)
      = map (\<lambda>k. xs ! nat (progression w k)) [0..range_len w - 1]"
    by (simp add: w_def range_iter.simps progression_def)
  finally have "vr_list r' = list_slice xs sl" using l' by simp
  moreover have "vr_list r = Inr xs" using u(3) by (simp add: xs_def)
  ultimately show ?thesis using g by (auto simp: r'_def)
qed

section \<open>The work of a lookup\<close>

lemma length_range_iter_unit:
  "0 \<le> m \<Longrightarrow> int (length (range_iter (PyRange a (a + m) 1))) = m"
  by (simp add: range_iter.simps range_len_unit)

lemma index_sets_found:
  assumes ranges: "vr_ranges r = [R0, R1, R2]"
    and steps: "r_step R0 \<noteq> 0" "r_step R1 \<noteq> 0" "r_step R2 \<noteq> 0"
    and order: "vr_order r = [c0, c1, c2]"
    and attrs: "getattr v c0 = Inr x0" "getattr v c1 = Inr x1" "getattr v c2 = Inr x2"
    and i0: "range_index R0 x0 = Inr d0"
    and i1: "range_index R1 x1 = Inr d1"
    and i2: "range_index R2 x2 = Inr d2"
    and fit: "range_len R0 * range_len R1 * range_len R2 \<le> maxsize"
    and fits: "range_len R0 \<le> maxsize" "range_len R1 \<le> maxsize" "range_len R2 \<le> maxsize"
  shows "\<exists>a b c. index_sets r v = Inr (a, b, c)
           \<and> int (length c) = range_len R0 * range_len R1"
proof -
  let ?l0 = "range_len R0" and ?l1 = "range_len R1" and ?l2 = "range_len R2"
  have d: "0 \<le> d0" "d0 < ?l0" "0 \<le> d1" "d1 < ?l1" "0 \<le> d2" "d2 < ?l2"
    using i0 i1 i2 steps by (simp_all add: range_index_iff)
  then have l: "0 < ?l0" "0 < ?l1" "0 < ?l2" by linarith+
  have fit0: "?l0 * ?l1 * ?l2 - 0 \<le> maxsize" using fit by simp
  have "1 * (?l1 * ?l2) \<le> ?l0 * (?l1 * ?l2)"
    using l by (intro mult_right_mono) simp_all
  then have fit1: "?l1 * ?l2 - 0 \<le> maxsize" using fit by (simp add: mult.assoc)
  obtain xs where xs: "rmod ?l0 d0 (NumRange (PyRange 0 (?l0 * ?l1 * ?l2) 1)) = Inr xs"
    using rmod_unit_step[OF l(1) fit0, of d0] by blast
  have "?l0 * ?l1 * ?l2 div ?l0 = ?l1 * ?l2" using l(1) by (simp add: mult.assoc)
  then have fd: "py_floordiv (?l0 * ?l1 * ?l2) ?l0 = Inr (?l1 * ?l2)"
    using l(1) by (simp add: py_floordiv_def)
  obtain as where as: "rmod ?l1 d1 (NumRange (PyRange 0 (?l1 * ?l2) 1)) = Inr as"
    using rmod_unit_step[OF l(2) fit1, of d1] by blast
  let ?g = "\<lambda>a. range_iter (PyRange (a * ?l0) (a * ?l0 + ?l0) 1)"
  have bs: "collect (map (rdiv ?l0) as) = Inr (map ?g as)"
    by (rule collect_map_Inr) (rule rdiv_exact[OF l(1)])
  have k0: "0 < ?l0 * ?l1" using l by simp
  let ?ks = "range_iter (PyRange (d2 * (?l0 * ?l1)) (d2 * (?l0 * ?l1) + ?l0 * ?l1) 1)"
  have ks: "rdiv (?l0 * ?l1) d2 = Inr ?ks" by (rule rdiv_exact[OF k0])
  have "index_sets r v = Inr (xs, concat (map ?g as), ?ks)"
    unfolding index_sets_def order ranges
    by (simp add: attrs len_range_Inr steps fits i0 i1 i2 xs fd as bs ks)
  moreover have "int (length ?ks) = ?l0 * ?l1"
    using k0 by (intro length_range_iter_unit) simp
  ultimately show ?thesis by blast
qed

text \<open>A lookup that succeeds has built the candidate set \<^verbatim>\<open>k_indexes\<close> in full, and that
  set has as many members as the two fastest axes have positions together: the work of
  \<^verbatim>\<open>index\<close>, and with it of \<^verbatim>\<open>__contains__\<close> and \<^verbatim>\<open>count\<close>, grows with the range.\<close>

lemma index_builds_sets:
  assumes "reachable r" "vr_len r = Inr n" "vr_index r v = Inr i"
  shows "\<exists>a b c. index_sets r v = Inr (a, b, c)
           \<and> int (length c) = range_len (vr_ranges r ! 0) * range_len (vr_ranges r ! 1)"
proof -
  have v: "valid_vr r" using reachable_inv[OF assms(1)] by simp
  have f: "fits r" by (rule reachable_fits[OF assms(1,2)])
  show ?thesis
  proof (rule valid_vr_bundle[OF v])
    fix c0 c1 c2 R0 R1 R2 p0 p1 p2
    assume b:
      "vr_order r = [c0, c1, c2]" "vr_ranges r = [R0, R1, R2]"
      "r_step R0 \<noteq> 0" "r_step R1 \<noteq> 0" "r_step R2 \<noteq> 0"
      "\<And>v. getattr v c0 = Inr (axis v c0)" "\<And>v. getattr v c1 = Inr (axis v c1)"
      "\<And>v. getattr v c2 = Inr (axis v c2)"
      "raw_len r = range_len R0 * range_len R1 * range_len R2"
    have fa: "range_len R0 \<le> maxsize" "range_len R1 \<le> maxsize" "range_len R2 \<le> maxsize"
      and fit: "range_len R0 * range_len R1 * range_len R2 \<le> maxsize"
      using f b(2,9) by (simp_all add: fits_def)
    have "raw_index r v \<noteq> Inl ValueError"
      using assms(3) unfolding vr_index_unfold_valid[OF v f] by auto
    then have "\<not> (range_index R0 (axis v c0) = Inl ValueError
        \<or> range_index R1 (axis v c1) = Inl ValueError
        \<or> range_index R2 (axis v c2) = Inl ValueError)"
      using raw_index_missing[OF b(2) b(3) b(4) b(5) b(1) b(6) b(7) b(8) _ fit] by blast
    then obtain d0 d1 d2 where i: "range_index R0 (axis v c0) = Inr d0"
      "range_index R1 (axis v c1) = Inr d1" "range_index R2 (axis v c2) = Inr d2"
      using range_index_cases[of R0 "axis v c0"] range_index_cases[of R1 "axis v c1"]
        range_index_cases[of R2 "axis v c2"] by blast
    show ?thesis
      using index_sets_found[OF b(2) b(3) b(4) b(5) b(1) b(6) b(7) b(8) i fit fa] b(2)
      by simp
  qed
qed

section \<open>Scalar operands\<close>

text \<open>
  C10. For every vector \<open>v\<close> and every scalar \<open>s\<close>, \<open>s + v\<close> and \<open>s * v\<close> succeed and
  equal the component-wise broadcasts \<open>v + s\<close> and \<open>v * s\<close>, while \<open>s - v\<close> fails with a
  type error: no reflected subtraction exists.
\<close>

theorem scalar_operand_asymmetry:
  "py_binop Add (PInt s) (PVec v) = py_binop Add (PVec v) (PInt s)
   \<and> py_binop Add (PVec v) (PInt s) = Inr (PVec (Vector (vx v + s) (vy v + s) (vz v + s)))
   \<and> py_binop Mul (PInt s) (PVec v) = py_binop Mul (PVec v) (PInt s)
   \<and> py_binop Mul (PVec v) (PInt s) = Inr (PVec (Vector (vx v * s) (vy v * s) (vz v * s)))
   \<and> py_binop Sub (PInt s) (PVec v) = Inl TypeError"
  by simp

section \<open>Concrete behaviour of slicing, comparison and the helpers\<close>

text \<open>
  C3. Slicing is claimed to compose: the element sequence of \<open>r[1:][1:]\<close> should be that
  of \<open>r[2:]\<close>. The code resolves the second slice against the length of the window but
  stores the resulting indices as raw indices, so on the cube \<open>r[1:][1:]\<close> holds the raw
  elements 1 to 6 and \<open>r[2:]\<close> the raw elements 2 to 7.
\<close>

theorem slice_of_slice_on_cube:
  "and_then (vr_getslice cube_zxy (Slice (Some 1) None None))
     (\<lambda>r1. and_then (vr_getslice r1 (Slice (Some 1) None None)) vr_list)
   = Inr [Vector 0 0 1, Vector 1 0 0, Vector 1 0 1, Vector 0 1 0, Vector 0 1 1, Vector 1 1 0]
   \<and> and_then (vr_getslice cube_zxy (Slice (Some 2) None None)) vr_list
   = Inr [Vector 1 0 0, Vector 1 0 1, Vector 0 1 0, Vector 0 1 1, Vector 1 1 0, Vector 1 1 1]"
  by code_simp

text \<open>
  C4. A slice of a range is claimed to hold the elements of the Python list slice
  \<open>list(r)[sl]\<close>, also for a negative step. With a negative step the code clamps the
  bounds to \<open>[0, len]\<close> where a list clamps them to \<open>[-1, len - 1]\<close>: on the cube the slice
  \<open>[:-9:-1]\<close> has seven elements where the list slice has all eight, and \<open>[10::-1]\<close>
  fails an assertion.
\<close>

theorem negative_step_slice_on_cube:
  "and_then (vr_getslice cube_zxy (Slice None (Some (- 9)) (Some (- 1)))) vr_list
   = Inr [Vector 1 1 1, Vector 1 1 0, Vector 0 1 1, Vector 0 1 0, Vector 1 0 1, Vector 1 0 0,
          Vector 0 0 1]
   \<and> and_then (vr_list cube_zxy) (\<lambda>xs. list_slice xs (Slice None (Some (- 9)) (Some (- 1))))
   = Inr [Vector 1 1 1, Vector 1 1 0, Vector 0 1 1, Vector 0 1 0, Vector 1 0 1, Vector 1 0 0,
          Vector 0 0 1, Vector 0 0 0]
   \<and> vr_getslice cube_zxy (Slice (Some 10) None (Some (- 1))) = Inl AssertionError"
  by code_simp

text \<open>
  C1. The round trip \<open>r.index(r[i]) = i\<close> is claimed for every non-empty range, sliced or
  not, and every \<open>0 \<le> i < len(r)\<close>. The slice \<open>[8::-2]\<close> of the cube has five elements and
  its window starts at the raw index 8, one past the last element, so reading its element 0
  raises \<^verbatim>\<open>IndexError\<close> and there is nothing to look up.
\<close>

theorem round_trip_fails_on_sliced_cube:
  "and_then (vr_getslice cube_zxy (Slice (Some 8) None (Some (- 2))))
     (\<lambda>r. Inr (vr_slice r, vr_len r, vr_getitem r 0))
   = Inr (Some (PyRange 8 (- 1) (- 2)), Inr 5, Inl IndexError)"
  by code_simp

text \<open>
  C8. \<^verbatim>\<open>rmod\<close> is claimed to return exactly the members \<open>n\<close> of an ascending range with
  \<open>n mod denom = result\<close>. For the ascending range \<^verbatim>\<open>range(0, 10, 2)\<close> it returns the odd
  numbers below 10, none of which is a member of the range.
\<close>

theorem rmod_on_stepped_range:
  "rmod 2 1 (NumRange (PyRange 0 10 2)) = Inr [1, 3, 5, 7, 9]
   \<and> range_iter (PyRange 0 10 2) = [0, 2, 4, 6, 8]"
  by code_simp

text \<open>
  C7. When one sequence is a strict prefix of the other, \<open><\<close> is claimed to yield false
  in both directions. \<^verbatim>\<open>vector_range(Vector(1, 1, 1))\<close> iterates the one vector
  \<open>(0, 0, 0)\<close>, a strict prefix of what \<^verbatim>\<open>vector_range(Vector(1, 1, 2))\<close> iterates; the
  comparison meets a vector and the padding \<^verbatim>\<open>None\<close> and raises \<^verbatim>\<open>TypeError\<close> in both
  directions, against the other range and against a list of the same vectors alike.
\<close>

theorem lt_raises_on_strict_prefix:
  "vector_range_init (Vector 1 1 1) None (Vector 1 1 1) ''zxy'' None = Inr line1
   \<and> vector_range_init (Vector 1 1 2) None (Vector 1 1 1) ''zxy'' None = Inr line2
   \<and> vr_list line1 = Inr [Vector 0 0 0]
   \<and> vr_list line2 = Inr [Vector 0 0 0, Vector 0 0 1]
   \<and> vr_lt line1 (OfRange line2) = Inl TypeError
   \<and> vr_lt line2 (OfRange line1) = Inl TypeError
   \<and> vr_lt line1 (OfList [Vector 0 0 0, Vector 0 0 1]) = Inl TypeError
   \<and> vr_lt line2 (OfList [Vector 0 0 0]) = Inl TypeError"
  by code_simp

end
